theory Spec2Isabelle
  imports Main
begin

section \<open>The authenticated request pipeline of the mobile client\<close>

text \<open>
  The development embeds \<^verbatim>\<open>src/mobile/src/api/client.ts\<close> (the axios
  interceptors with the refresh mutex \<^verbatim>\<open>isRefreshing\<close> and the queue
  \<^verbatim>\<open>failedQueue\<close>), the module \<^verbatim>\<open>tokenStorage\<close> and the
  \<^verbatim>\<open>AuthProvider\<close> component.

  JavaScript runs one turn at a time: a turn starts when a caller invokes the client or
  when an awaited operation (a network call, a SecureStore call) completes, and it runs
  without interruption up to the next \<^verbatim>\<open>await\<close>. Every turn is an
  \<^emph>\<open>event\<close> of the model; an async function is cut at its awaits into the pieces
  that run in one turn each, and the locals that survive an await are kept in the
  \<^emph>\<open>phase\<close> of the suspended call. The network and the secure store are the
  environment: the event carries what they answered.
\<close>

subsection \<open>Values\<close>

type_synonym rid = nat
type_synonym oid = nat

text \<open>An axios failure either carries a response with a status or has no response at all
  (transport failure, timeout).\<close>

datatype failure = Status nat | NoResponse

text \<open>\<^verbatim>\<open>response.data\<close>: absent, or an object of which the model keeps the three
  fields of a token response, each a string or missing (\<^verbatim>\<open>undefined\<close>, here
  \<open>None\<close>). Objects with a field of another type are not represented.\<close>

datatype body = NoBody
  | Json (access_token: "string option") (refresh_token: "string option") (token_type: "string option")

datatype outcome = Ok body | Fail failure

text \<open>The values a promise of the client is rejected with. All of them are objects, so
  \<^verbatim>\<open>if (error)\<close> holds for each.\<close>

datatype error =
    RequestFailed failure
  | RenewalFailed failure
  | BadRenewalBody
  | StoreFailed
  | ParseFailed

datatype result = Resolved body | Rejected error

text \<open>JavaScript truthiness of a \<^verbatim>\<open>string | null | undefined\<close>, and the template
  literal \<^verbatim>\<open>`Bearer ${token}`\<close>, which is applied to a string or to a missing
  field and prints the latter as \<^verbatim>\<open>undefined\<close>.\<close>

definition truthy :: "string option \<Rightarrow> bool" where
  "truthy v = (case v of None \<Rightarrow> False | Some t \<Rightarrow> t \<noteq> [])"

definition bearer :: "string option \<Rightarrow> string" where
  "bearer v = ''Bearer '' @ (case v of None \<Rightarrow> ''undefined'' | Some t \<Rightarrow> t)"

subsection \<open>Requests, session operations and the process state\<close>

datatype endpoint = DataEp | LoginEp | RegisterEp | RefreshEp string

text \<open>Where a call of the client stands. \<open>ReadingRenewal\<close>, \<open>Renewing\<close>,
  \<open>Persisting\<close> and \<open>Clearing\<close> are the four awaits of the response
  interceptor's error handler, with the locals \<^verbatim>\<open>error\<close>,
  \<^verbatim>\<open>refreshToken\<close>, \<^verbatim>\<open>access_token\<close>, \<^verbatim>\<open>newRefresh\<close>
  and \<^verbatim>\<open>refreshError\<close>; \<open>Queued\<close> is the pending promise whose
  resolve/reject pair sits in \<^verbatim>\<open>failedQueue\<close>.\<close>

datatype phase =
    InFlight
  | ReadingRenewal error
  | Queued
  | Renewing string
  | Persisting string "string option" "string option"
  | Clearing error
  | Settled result

text \<open>A request config: its target, its \<^verbatim>\<open>headers.Authorization\<close> and its
  \<^verbatim>\<open>_retry\<close> flag.\<close>

record task =
  target :: endpoint
  authorization :: "string option"
  retry :: bool
  phase :: phase

datatype opkind = Login | Register | Startup | Logout

datatype opphase = StartupReading | Awaiting rid | Saving string | Wiping | Finished

record op =
  kind :: opkind
  ophase :: opphase

text \<open>The module variables of \<^verbatim>\<open>client.ts\<close> and \<^verbatim>\<open>tokenStorage\<close>, the item
  kept by SecureStore, the React state of \<^verbatim>\<open>AuthProvider\<close>, and the calls that
  are under way. Two history variables record what went over the network:
  \<open>refreshCalls\<close> logs the credential of every
  \<^verbatim>\<open>axios.post(.../auth/refresh)\<close> the interceptor sends, and \<open>rotated\<close>
  the credentials submitted by a renewal whose rotated credential has been persisted.\<close>

record state =
  isRefreshing :: bool
  failedQueue :: "rid list"
  accessToken :: "string option"
  secureStore :: "string option"
  tasks :: "rid \<Rightarrow> task option"
  ops :: "oid \<Rightarrow> op option"
  isAuthenticated :: bool
  isLoading :: bool
  refreshCalls :: "string list"
  rotated :: "string list"

definition boot :: "string option \<Rightarrow> state" where
  "boot persisted =
     \<lparr>isRefreshing = False, failedQueue = [], accessToken = None, secureStore = persisted,
      tasks = (\<lambda>r. None), ops = (\<lambda>i. None), isAuthenticated = False, isLoading = True,
      refreshCalls = [], rotated = []\<rparr>"

subsection \<open>tokenStorage\<close>

definition getAccessToken :: "state \<Rightarrow> string option" where
  "getAccessToken s = accessToken s"

definition setAccessToken :: "string option \<Rightarrow> state \<Rightarrow> state" where
  "setAccessToken v s = s\<lparr>accessToken := v\<rparr>"

definition clearAccessToken :: "state \<Rightarrow> state" where
  "clearAccessToken s = s\<lparr>accessToken := None\<rparr>"

text \<open>\<^verbatim>\<open>getRefreshToken\<close> returns the stored item, and \<^verbatim>\<open>null\<close> when
  \<^verbatim>\<open>SecureStore.getItemAsync\<close> throws (\<open>ok = False\<close>).\<close>

definition getRefreshToken :: "bool \<Rightarrow> state \<Rightarrow> string option" where
  "getRefreshToken ok s = (if ok then secureStore s else None)"

text \<open>\<^verbatim>\<open>setRefreshToken\<close> when \<^verbatim>\<open>SecureStore.setItemAsync\<close> has succeeded;
  when it throws the item is left as it was and the caller sees the exception.\<close>

definition setRefreshToken :: "string option \<Rightarrow> state \<Rightarrow> state" where
  "setRefreshToken v s = s\<lparr>secureStore := v\<rparr>"

text \<open>\<^verbatim>\<open>clearRefreshToken\<close> swallows the exception of
  \<^verbatim>\<open>SecureStore.deleteItemAsync\<close>: with \<open>ok = False\<close> nothing was deleted and
  the function returns normally all the same.\<close>

definition clearRefreshToken :: "bool \<Rightarrow> state \<Rightarrow> state" where
  "clearRefreshToken ok s = (if ok then s\<lparr>secureStore := None\<rparr> else s)"

subsection \<open>client.ts\<close>

definition upd :: "rid \<Rightarrow> task \<Rightarrow> state \<Rightarrow> state" where
  "upd r t s = s\<lparr>tasks := (tasks s)(r \<mapsto> t)\<rparr>"

text \<open>The request interceptor, and \<^verbatim>\<open>apiClient(config)\<close>: the interceptor runs and
  the request leaves.\<close>

definition attach :: "state \<Rightarrow> task \<Rightarrow> task" where
  "attach s t =
     (if truthy (getAccessToken s) then t\<lparr>authorization := Some (bearer (getAccessToken s))\<rparr>
      else t)"

definition apiClient :: "state \<Rightarrow> task \<Rightarrow> task" where
  "apiClient s t = (attach s t)\<lparr>phase := InFlight\<rparr>"

text \<open>One entry of \<^verbatim>\<open>failedQueue\<close> under \<^verbatim>\<open>processQueue(error, token)\<close>:
  \<^verbatim>\<open>p.reject(error)\<close> if there is an error, else \<^verbatim>\<open>p.resolve(token)\<close> if the
  token is truthy (the header is set and the request is issued again), else nothing.\<close>

definition settleWaiter :: "error option \<Rightarrow> string option \<Rightarrow> state \<Rightarrow> task \<Rightarrow> task" where
  "settleWaiter err token s t =
     (case err of
        Some e \<Rightarrow> t\<lparr>phase := Settled (Rejected e)\<rparr>
      | None \<Rightarrow>
          if truthy token then apiClient s (t\<lparr>authorization := Some (bearer token)\<rparr>)
          else t)"

definition processQueue :: "error option \<Rightarrow> string option \<Rightarrow> state \<Rightarrow> state" where
  "processQueue err token s =
     s\<lparr>tasks := fold (\<lambda>r ts. ts(r := map_option (settleWaiter err token s) (ts r)))
                  (failedQueue s) (tasks s),
       failedQueue := []\<rparr>"

text \<open>A caller invokes the client with a fresh config.\<close>

definition newRequest :: "rid \<Rightarrow> endpoint \<Rightarrow> state \<Rightarrow> state option" where
  "newRequest r ep s =
     (case tasks s r of
        Some t \<Rightarrow> None
      | None \<Rightarrow>
          Some (upd r (apiClient s
            \<lparr>target = ep, authorization = None, retry = False, phase = InFlight\<rparr>) s))"

text \<open>The response arrives. A success passes the response interceptor unchanged. A failure
  enters the error handler (lines 43 to 51): anything but an unmarked 401 is rejected as it
  is, otherwise the handler awaits \<^verbatim>\<open>tokenStorage.getRefreshToken()\<close>.\<close>

definition onResponse :: "rid \<Rightarrow> outcome \<Rightarrow> state \<Rightarrow> state option" where
  "onResponse r out s =
     (case tasks s r of
        None \<Rightarrow> None
      | Some t \<Rightarrow>
          (case phase t of
             InFlight \<Rightarrow>
               (case out of
                  Ok b \<Rightarrow> Some (upd r (t\<lparr>phase := Settled (Resolved b)\<rparr>) s)
                | Fail f \<Rightarrow>
                    if f \<noteq> Status 401 \<or> retry t
                    then Some (upd r (t\<lparr>phase := Settled (Rejected (RequestFailed f))\<rparr>) s)
                    else Some (upd r (t\<lparr>phase := ReadingRenewal (RequestFailed f)\<rparr>) s))
           | _ \<Rightarrow> None))"

text \<open>The renewal credential has been read (lines 52 to 75): without one the original error
  is rejected; while a renewal is running the caller is queued; otherwise the caller marks
  its request, takes the mutex and posts the renewal.\<close>

definition onRefreshTokenRead :: "rid \<Rightarrow> bool \<Rightarrow> state \<Rightarrow> state option" where
  "onRefreshTokenRead r ok s =
     (case tasks s r of
        None \<Rightarrow> None
      | Some t \<Rightarrow>
          (case phase t of
             ReadingRenewal e \<Rightarrow>
               (case getRefreshToken ok s of
                  None \<Rightarrow> Some (upd r (t\<lparr>phase := Settled (Rejected e)\<rparr>) s)
                | Some tok \<Rightarrow>
                    if tok = [] then Some (upd r (t\<lparr>phase := Settled (Rejected e)\<rparr>) s)
                    else if isRefreshing s
                    then Some (upd r (t\<lparr>phase := Queued\<rparr>)
                                 (s\<lparr>failedQueue := failedQueue s @ [r]\<rparr>))
                    else Some (upd r (t\<lparr>retry := True, phase := Renewing tok\<rparr>)
                                 (s\<lparr>isRefreshing := True,
                                    refreshCalls := refreshCalls s @ [tok]\<rparr>)))
           | _ \<Rightarrow> None))"

text \<open>The \<^verbatim>\<open>catch\<close> block up to its await (lines 85 to 88).\<close>

definition catchRefresh :: "rid \<Rightarrow> task \<Rightarrow> error \<Rightarrow> state \<Rightarrow> state" where
  "catchRefresh r t e s =
     upd r (t\<lparr>phase := Clearing e\<rparr>) (clearAccessToken (processQueue (Some e) None s))"

text \<open>The renewal call has completed (lines 73 to 79). Destructuring a missing
  \<^verbatim>\<open>resp.data\<close> throws into the \<^verbatim>\<open>catch\<close> block.\<close>

definition onRenewalResponse :: "rid \<Rightarrow> outcome \<Rightarrow> state \<Rightarrow> state option" where
  "onRenewalResponse r out s =
     (case tasks s r of
        None \<Rightarrow> None
      | Some t \<Rightarrow>
          (case phase t of
             Renewing tok \<Rightarrow>
               (case out of
                  Fail f \<Rightarrow> Some (catchRefresh r t (RenewalFailed f) s)
                | Ok NoBody \<Rightarrow> Some (catchRefresh r t BadRenewalBody s)
                | Ok (Json a n ty) \<Rightarrow>
                    Some (upd r (t\<lparr>phase := Persisting tok a n\<rparr>) (setAccessToken a s)))
           | _ \<Rightarrow> None))"

text \<open>\<^verbatim>\<open>setRefreshToken\<close> has completed (lines 79 to 83, then \<^verbatim>\<open>finally\<close>), or
  has thrown into the \<^verbatim>\<open>catch\<close> block.\<close>

definition commitRenewal ::
  "rid \<Rightarrow> task \<Rightarrow> string \<Rightarrow> string option \<Rightarrow> string option \<Rightarrow> state \<Rightarrow> state" where
  "commitRenewal r t tok a n s =
     (let s1 = setRefreshToken n s;
          t1 = t\<lparr>authorization := Some (bearer a)\<rparr>;
          s2 = processQueue None a s1;
          s3 = upd r (apiClient s2 t1) s2
      in s3\<lparr>isRefreshing := False, rotated := rotated s @ [tok]\<rparr>)"

definition onRefreshTokenWritten :: "rid \<Rightarrow> bool \<Rightarrow> state \<Rightarrow> state option" where
  "onRefreshTokenWritten r ok s =
     (case tasks s r of
        None \<Rightarrow> None
      | Some t \<Rightarrow>
          (case phase t of
             Persisting tok a n \<Rightarrow>
               if ok then Some (commitRenewal r t tok a n s)
               else Some (catchRefresh r t StoreFailed s)
           | _ \<Rightarrow> None))"

text \<open>\<^verbatim>\<open>clearRefreshToken\<close> has returned (line 89, then \<^verbatim>\<open>finally\<close>).\<close>

definition onRefreshTokenCleared :: "rid \<Rightarrow> bool \<Rightarrow> state \<Rightarrow> state option" where
  "onRefreshTokenCleared r ok s =
     (case tasks s r of
        None \<Rightarrow> None
      | Some t \<Rightarrow>
          (case phase t of
             Clearing e \<Rightarrow>
               Some ((upd r (t\<lparr>phase := Settled (Rejected e)\<rparr>) (clearRefreshToken ok s))
                       \<lparr>isRefreshing := False\<rparr>)
           | _ \<Rightarrow> None))"

subsection \<open>AuthProvider\<close>

definition setOp :: "oid \<Rightarrow> op \<Rightarrow> state \<Rightarrow> state" where
  "setOp i p s = s\<lparr>ops := (ops s)(i \<mapsto> p)\<rparr>"

text \<open>The effect on mount starts with \<^verbatim>\<open>await tokenStorage.getRefreshToken()\<close>.\<close>

definition mount :: "oid \<Rightarrow> state \<Rightarrow> state option" where
  "mount i s =
     (case ops s i of
        Some p \<Rightarrow> None
      | None \<Rightarrow> Some (setOp i \<lparr>kind = Startup, ophase = StartupReading\<rparr> s))"

text \<open>With a credential the effect calls \<^verbatim>\<open>endpoints.refreshTokens\<close>, a request
  through the client; without one only \<^verbatim>\<open>finally\<close> runs.\<close>

definition onStartupRead :: "oid \<Rightarrow> bool \<Rightarrow> rid \<Rightarrow> state \<Rightarrow> state option" where
  "onStartupRead i ok r s =
     (case ops s i of
        None \<Rightarrow> None
      | Some p \<Rightarrow>
          (case ophase p of
             StartupReading \<Rightarrow>
               (if truthy (getRefreshToken ok s)
                then (case getRefreshToken ok s of
                        None \<Rightarrow> None
                      | Some tok \<Rightarrow>
                          map_option (setOp i (p\<lparr>ophase := Awaiting r\<rparr>))
                            (newRequest r (RefreshEp tok) s))
                else Some (setOp i (p\<lparr>ophase := Finished\<rparr>) (s\<lparr>isLoading := False\<rparr>)))
           | _ \<Rightarrow> None))"

text \<open>\<^verbatim>\<open>login\<close> and \<^verbatim>\<open>register\<close> start with a request through the client;
  \<^verbatim>\<open>logout\<close> starts with \<^verbatim>\<open>tokenStorage.clearAll()\<close>, which clears the
  access token and awaits \<^verbatim>\<open>clearRefreshToken\<close>.\<close>

definition callAuth :: "oid \<Rightarrow> opkind \<Rightarrow> rid \<Rightarrow> state \<Rightarrow> state option" where
  "callAuth i k r s =
     (case ops s i of
        Some p \<Rightarrow> None
      | None \<Rightarrow>
          (case k of
             Login \<Rightarrow> map_option (setOp i \<lparr>kind = Login, ophase = Awaiting r\<rparr>)
                        (newRequest r LoginEp s)
           | Register \<Rightarrow> map_option (setOp i \<lparr>kind = Register, ophase = Awaiting r\<rparr>)
                           (newRequest r RegisterEp s)
           | Logout \<Rightarrow> Some (setOp i \<lparr>kind = Logout, ophase = Wiping\<rparr> (clearAccessToken s))
           | Startup \<Rightarrow> None))"

text \<open>An exception in an operation: the mount effect catches it and calls
  \<^verbatim>\<open>tokenStorage.clearAll()\<close>; \<^verbatim>\<open>login\<close> and \<^verbatim>\<open>register\<close> pass it
  to their caller.\<close>

definition opThrow :: "oid \<Rightarrow> op \<Rightarrow> state \<Rightarrow> state" where
  "opThrow i p s =
     (if kind p = Startup then setOp i (p\<lparr>ophase := Wiping\<rparr>) (clearAccessToken s)
      else setOp i (p\<lparr>ophase := Finished\<rparr>) s)"

text \<open>The awaited request has settled. \<^verbatim>\<open>TokenResponseSchema.parse\<close> wants the three
  fields to be strings; then the access token is set and
  \<^verbatim>\<open>setRefreshToken\<close> is awaited.\<close>

definition onOpResume :: "oid \<Rightarrow> state \<Rightarrow> state option" where
  "onOpResume i s =
     (case ops s i of
        None \<Rightarrow> None
      | Some p \<Rightarrow>
          (case ophase p of
             Awaiting r \<Rightarrow>
               (case tasks s r of
                  None \<Rightarrow> None
                | Some t \<Rightarrow>
                    (case phase t of
                       Settled (Resolved (Json (Some a) (Some n) (Some ty))) \<Rightarrow>
                         Some (setOp i (p\<lparr>ophase := Saving n\<rparr>) (setAccessToken (Some a) s))
                     | Settled res \<Rightarrow> Some (opThrow i p s)
                     | _ \<Rightarrow> None))
           | _ \<Rightarrow> None))"

definition onOpSaved :: "oid \<Rightarrow> bool \<Rightarrow> state \<Rightarrow> state option" where
  "onOpSaved i ok s =
     (case ops s i of
        None \<Rightarrow> None
      | Some p \<Rightarrow>
          (case ophase p of
             Saving n \<Rightarrow>
               if ok
               then Some (setOp i (p\<lparr>ophase := Finished\<rparr>)
                      ((setRefreshToken (Some n) s)
                         \<lparr>isAuthenticated := True,
                          isLoading := (if kind p = Startup then False else isLoading s)\<rparr>))
               else Some (opThrow i p s)
           | _ \<Rightarrow> None))"

definition onOpCleared :: "oid \<Rightarrow> bool \<Rightarrow> state \<Rightarrow> state option" where
  "onOpCleared i ok s =
     (case ops s i of
        None \<Rightarrow> None
      | Some p \<Rightarrow>
          (case ophase p of
             Wiping \<Rightarrow>
               Some (setOp i (p\<lparr>ophase := Finished\<rparr>)
                 ((clearRefreshToken ok s)
                    \<lparr>isAuthenticated := (if kind p = Logout then False else isAuthenticated s),
                     isLoading := (if kind p = Startup then False else isLoading s)\<rparr>))
           | _ \<Rightarrow> None))"

subsection \<open>Turns and executions\<close>

datatype event =
    Execute rid
  | Respond rid outcome
  | ReadDone rid bool
  | RenewalDone rid outcome
  | PersistDone rid bool
  | ClearDone rid bool
  | Mount oid
  | StartupReadDone oid bool rid
  | Call oid opkind rid
  | Resume oid
  | Saved oid bool
  | Cleared oid bool

fun step :: "event \<Rightarrow> state \<Rightarrow> state option" where
  "step (Execute r) s = newRequest r DataEp s"
| "step (Respond r out) s = onResponse r out s"
| "step (ReadDone r ok) s = onRefreshTokenRead r ok s"
| "step (RenewalDone r out) s = onRenewalResponse r out s"
| "step (PersistDone r ok) s = onRefreshTokenWritten r ok s"
| "step (ClearDone r ok) s = onRefreshTokenCleared r ok s"
| "step (Mount i) s = mount i s"
| "step (StartupReadDone i ok r) s = onStartupRead i ok r s"
| "step (Call i k r) s = callAuth i k r s"
| "step (Resume i) s = onOpResume i s"
| "step (Saved i ok) s = onOpSaved i ok s"
| "step (Cleared i ok) s = onOpCleared i ok s"

fun run :: "event list \<Rightarrow> state \<Rightarrow> state option" where
  "run [] s = Some s"
| "run (e # es) s = (case step e s of None \<Rightarrow> None | Some s' \<Rightarrow> run es s')"

text \<open>What the caller of the client gets when the response is handed on as it came.\<close>

fun verbatim :: "outcome \<Rightarrow> result" where
  "verbatim (Ok b) = Resolved b"
| "verbatim (Fail f) = Rejected (RequestFailed f)"

text \<open>Observations of one call: where it stands, and whether its request is marked.\<close>

definition phaseOf :: "rid \<Rightarrow> state \<Rightarrow> phase option" where
  "phaseOf r s = map_option phase (tasks s r)"

definition retryOf :: "rid \<Rightarrow> state \<Rightarrow> bool option" where
  "retryOf r s = map_option retry (tasks s r)"

text \<open>The turns of \<^verbatim>\<open>client.ts\<close>, as opposed to those of \<^verbatim>\<open>AuthProvider\<close>.\<close>

fun pipelineEvent :: "event \<Rightarrow> bool" where
  "pipelineEvent (Execute r) = True"
| "pipelineEvent (Respond r out) = True"
| "pipelineEvent (ReadDone r ok) = True"
| "pipelineEvent (RenewalDone r out) = True"
| "pipelineEvent (PersistDone r ok) = True"
| "pipelineEvent (ClearDone r ok) = True"
| "pipelineEvent e = False"

text \<open>Between taking and releasing the mutex \<^verbatim>\<open>isRefreshing\<close> the initiating call
  is in one of three phases; in the first of them the renewal request is in flight.\<close>

fun holdsMutex :: "phase \<Rightarrow> bool" where
  "holdsMutex (Renewing tok) = True"
| "holdsMutex (Persisting tok a n) = True"
| "holdsMutex (Clearing e) = True"
| "holdsMutex p = False"


definition holders :: "state \<Rightarrow> rid set" where
  "holders s = {r. \<exists>t. tasks s r = Some t \<and> holdsMutex (phase t)}"

definition targetOf :: "rid \<Rightarrow> state \<Rightarrow> endpoint option" where
  "targetOf r s = map_option target (tasks s r)"



subsection \<open>The flow of renewal credentials\<close>

text \<open>The renewal credentials a response delivers, and those an execution started with the
  persisted credential \<open>p\<close> has seen issued by the server.\<close>

fun delivered :: "event \<Rightarrow> string list" where
  "delivered (Respond r (Ok (Json a (Some n) ty))) = [n]"
| "delivered (RenewalDone r (Ok (Json a (Some n) ty))) = [n]"
| "delivered e = []"

definition issued :: "string option \<Rightarrow> event list \<Rightarrow> string list" where
  "issued p es = (case p of None \<Rightarrow> [] | Some v \<Rightarrow> [v]) @ concat (map delivered es)"

text \<open>Where a renewal credential that has not yet reached the store can be: in the local
  \<^verbatim>\<open>newRefresh\<close> of the interceptor while it is being written, in the body of a settled
  response that a session operation still awaits, or in the \<^verbatim>\<open>tokens\<close> of a session
  operation that is saving it. The credential a running renewal has submitted is the one
  its holder read.\<close>

fun phTask :: "phase \<Rightarrow> string option" where
  "phTask (Persisting tok a n) = n"
| "phTask p = None"

fun phHolder :: "phase \<Rightarrow> string option" where
  "phHolder (Renewing tok) = Some tok"
| "phHolder (Persisting tok a n) = Some tok"
| "phHolder p = None"

fun phBody :: "phase \<Rightarrow> string option" where
  "phBody (Settled (Resolved (Json a n ty))) = n"
| "phBody p = None"

definition bodyTok :: "task option \<Rightarrow> string option" where
  "bodyTok x = (case x of None \<Rightarrow> None | Some t \<Rightarrow> phBody (phase t))"

definition taskTok :: "state \<Rightarrow> rid \<Rightarrow> string option" where
  "taskTok s r = (case tasks s r of None \<Rightarrow> None | Some t \<Rightarrow> phTask (phase t))"

definition holderTok :: "state \<Rightarrow> rid \<Rightarrow> string option" where
  "holderTok s r = (case tasks s r of None \<Rightarrow> None | Some t \<Rightarrow> phHolder (phase t))"

fun opPhaseTok :: "(rid \<Rightarrow> task option) \<Rightarrow> opphase \<Rightarrow> string option" where
  "opPhaseTok ts (Saving n) = Some n"
| "opPhaseTok ts (Awaiting r) = bodyTok (ts r)"
| "opPhaseTok ts p = None"

definition opTok :: "state \<Rightarrow> oid \<Rightarrow> string option" where
  "opTok s i = (case ops s i of None \<Rightarrow> None | Some p \<Rightarrow> opPhaseTok (tasks s) (ophase p))"

datatype slot = TaskSlot rid | OpSlot oid

fun slotTok :: "state \<Rightarrow> slot \<Rightarrow> string option" where
  "slotTok s (TaskSlot r) = taskTok s r"
| "slotTok s (OpSlot i) = opTok s i"

text \<open>A session operation awaits the request it has issued.\<close>

definition awaits :: "state \<Rightarrow> oid \<Rightarrow> rid \<Rightarrow> bool" where
  "awaits s i r \<longleftrightarrow> (\<exists>p. ops s i = Some p \<and> ophase p = Awaiting r)"

definition awaitInv :: "state \<Rightarrow> bool" where
  "awaitInv s \<longleftrightarrow>
     (\<forall>i r. awaits s i r \<longrightarrow> tasks s r \<noteq> None) \<and>
     (\<forall>i j r. awaits s i r \<and> awaits s j r \<longrightarrow> i = j)"

text \<open>Invariant of the flow, relative to the credentials \<open>K\<close> issued so far: a credential
  recorded as rotated is no longer in the store; a credential on its way to the store is
  neither rotated, nor in the store, nor held by a running renewal, and is in one place
  only.\<close>

definition tokInv :: "string set \<Rightarrow> state \<Rightarrow> bool" where
  "tokInv K s \<longleftrightarrow>
     set (rotated s) \<subseteq> K \<and>
     (\<forall>v. secureStore s = Some v \<longrightarrow> v \<in> K \<and> v \<notin> set (rotated s)) \<and>
     (\<forall>r v. holderTok s r = Some v \<longrightarrow> v \<in> K) \<and>
     (\<forall>x n. slotTok s x = Some n \<longrightarrow>
        n \<in> K \<and> n \<notin> set (rotated s) \<and> secureStore s \<noteq> Some n \<and>
        (\<forall>r. holderTok s r \<noteq> Some n)) \<and>
     (\<forall>x y n. slotTok s x = Some n \<and> slotTok s y = Some n \<longrightarrow> x = y)"

section \<open>Properties\<close>

lemmas pipeline_defs = newRequest_def onResponse_def onRefreshTokenRead_def catchRefresh_def
  onRenewalResponse_def commitRenewal_def onRefreshTokenWritten_def onRefreshTokenCleared_def
  upd_def apiClient_def attach_def settleWaiter_def processQueue_def

lemmas session_defs = mount_def onStartupRead_def callAuth_def opThrow_def onOpResume_def
  onOpSaved_def onOpCleared_def setOp_def

lemmas storage_defs = getAccessToken_def setAccessToken_def clearAccessToken_def
  getRefreshToken_def setRefreshToken_def clearRefreshToken_def truthy_def bearer_def

subsection \<open>Responses that are not authorization failures\<close>

text \<open>
  Claim C9. A response that is not an authorization failure reaches the caller unchanged:
  a success resolves with the response, every failure other than a 401 (a transport
  failure included) rejects with the error as it came. Nothing else in the state changes:
  no renewal is started, the mutex, the queue, the credentials and the log of renewal
  calls stay as they were.
\<close>

theorem pass_through:
  assumes "tasks s r = Some t" and "phase t = InFlight" and "out \<noteq> Fail (Status 401)"
  shows "step (Respond r out) s =
           Some (s\<lparr>tasks := (tasks s)(r \<mapsto> t\<lparr>phase := Settled (verbatim out)\<rparr>)\<rparr>)"
  using assms by (cases out) (simp_all add: onResponse_def upd_def)

theorem pass_through_witness:
  "step (Respond 1 (Fail NoResponse))
     (upd 1 \<lparr>target = DataEp, authorization = None, retry = False, phase = InFlight\<rparr>
        (boot None)) =
   Some ((boot None)\<lparr>tasks := (tasks (boot None))
        (1 \<mapsto> \<lparr>target = DataEp, authorization = None, retry = False,
                phase = Settled (Rejected (RequestFailed NoResponse))\<rparr>)\<rparr>)"
  using pass_through [of "upd 1 \<lparr>target = DataEp, authorization = None, retry = False,
        phase = InFlight\<rparr> (boot None)" 1
        "\<lparr>target = DataEp, authorization = None, retry = False, phase = InFlight\<rparr>"
        "Fail NoResponse"]
  by (simp add: upd_def)

subsection \<open>No renewal credential\<close>

text \<open>
  Claim C8. An authorization failure on an unmarked request makes the handler read the
  renewal credential, keeping the failure. When the read throws, or the store holds
  nothing (or the empty string), the call is rejected with that original failure; the
  renewal endpoint is not contacted (the log of renewal calls and the mutex are unchanged).
\<close>

theorem nothing_to_renew_with:
  "(tasks s r = Some t \<and> phase t = InFlight \<and> \<not> retry t \<longrightarrow>
      step (Respond r (Fail (Status 401))) s =
        Some (s\<lparr>tasks := (tasks s)
                (r \<mapsto> t\<lparr>phase := ReadingRenewal (RequestFailed (Status 401))\<rparr>)\<rparr>))
   \<and> (tasks s r = Some t \<and> phase t = ReadingRenewal e \<and>
        (\<not> ok \<or> \<not> truthy (secureStore s)) \<longrightarrow>
      step (ReadDone r ok) s =
        Some (s\<lparr>tasks := (tasks s)(r \<mapsto> t\<lparr>phase := Settled (Rejected e)\<rparr>)\<rparr>))"
  by (auto simp: onResponse_def onRefreshTokenRead_def upd_def getRefreshToken_def truthy_def
      split: option.splits)

theorem nothing_to_renew_with_witness:
  "step (Respond 1 (Fail (Status 401)))
     (upd 1 \<lparr>target = DataEp, authorization = None, retry = False, phase = InFlight\<rparr>
        (boot (Some ''R1''))) =
   Some (upd 1 \<lparr>target = DataEp, authorization = None, retry = False,
                 phase = ReadingRenewal (RequestFailed (Status 401))\<rparr> (boot (Some ''R1'')))
   \<and> step (ReadDone 1 False)
     (upd 1 \<lparr>target = DataEp, authorization = None, retry = False,
              phase = ReadingRenewal (RequestFailed (Status 401))\<rparr> (boot (Some ''R1''))) =
   Some (upd 1 \<lparr>target = DataEp, authorization = None, retry = False,
                 phase = Settled (Rejected (RequestFailed (Status 401)))\<rparr>
           (boot (Some ''R1'')))"
  using
    nothing_to_renew_with [of "upd 1 \<lparr>target = DataEp, authorization = None, retry = False,
        phase = InFlight\<rparr> (boot (Some ''R1''))" 1
        "\<lparr>target = DataEp, authorization = None, retry = False, phase = InFlight\<rparr>"]
    nothing_to_renew_with [of "upd 1 \<lparr>target = DataEp, authorization = None, retry = False,
        phase = ReadingRenewal (RequestFailed (Status 401))\<rparr> (boot (Some ''R1''))" 1
        "\<lparr>target = DataEp, authorization = None, retry = False,
          phase = ReadingRenewal (RequestFailed (Status 401))\<rparr>"
        "RequestFailed (Status 401)" False]
  by (simp add: upd_def)

subsection \<open>Draining the queue\<close>

lemma settleWaiter_idem:
  "settleWaiter err tok s (settleWaiter err tok s t) = settleWaiter err tok s t"
  by (simp add: settleWaiter_def apiClient_def attach_def split: option.splits)

lemma fold_settle:
  fixes f :: "'v \<Rightarrow> 'v" and m :: "'k \<Rightarrow> 'v option"
  assumes idem: "\<And>t. f (f t) = f t"
  shows "fold (\<lambda>r ts. ts(r := map_option f (ts r))) q m w =
         (if w \<in> set q then map_option f (m w) else m w)"
proof -
  define g where "g = (\<lambda>r (ts :: 'k \<Rightarrow> 'v option). ts(r := map_option f (ts r)))"
  have g_apply: "g a m' w' = (if w' = a then map_option f (m' a) else m' w')" for a m' w'
    by (simp add: g_def)
  have "fold g q m w = (if w \<in> set q then map_option f (m w) else m w)"
  proof (induction q arbitrary: m)
    case Nil
    show ?case by simp
  next
    case (Cons a q)
    have "fold g (a # q) m w = fold g q (g a m) w" by simp
    also have "\<dots> = (if w \<in> set q then map_option f (g a m w) else g a m w)"
      by (rule Cons.IH)
    also have "\<dots> = (if w \<in> set (a # q) then map_option f (m w) else m w)"
      by (cases "m w") (auto simp: g_apply idem)
    finally show ?case .
  qed
  then show ?thesis by (simp only: g_def)
qed

lemma processQueue_tasks:
  "tasks (processQueue err tok s) w =
     (if w \<in> set (failedQueue s) then map_option (settleWaiter err tok s) (tasks s w)
      else tasks s w)"
  unfolding processQueue_def
  by (simp add: fold_settle [where f = "settleWaiter err tok s", OF settleWaiter_idem])

lemma processQueue_fields [simp]:
  "failedQueue (processQueue err tok s) = []"
  "isRefreshing (processQueue err tok s) = isRefreshing s"
  "accessToken (processQueue err tok s) = accessToken s"
  "secureStore (processQueue err tok s) = secureStore s"
  "ops (processQueue err tok s) = ops s"
  "isAuthenticated (processQueue err tok s) = isAuthenticated s"
  "isLoading (processQueue err tok s) = isLoading s"
  "refreshCalls (processQueue err tok s) = refreshCalls s"
  "rotated (processQueue err tok s) = rotated s"
  by (simp_all add: processQueue_def)

lemma catchRefresh_fields:
  "failedQueue (catchRefresh r t e s) = []"
  "isRefreshing (catchRefresh r t e s) = isRefreshing s"
  "accessToken (catchRefresh r t e s) = None"
  "secureStore (catchRefresh r t e s) = secureStore s"
  "ops (catchRefresh r t e s) = ops s"
  "isAuthenticated (catchRefresh r t e s) = isAuthenticated s"
  "isLoading (catchRefresh r t e s) = isLoading s"
  "refreshCalls (catchRefresh r t e s) = refreshCalls s"
  "rotated (catchRefresh r t e s) = rotated s"
  by (simp_all add: catchRefresh_def upd_def clearAccessToken_def)

lemma catchRefresh_tasks:
  "tasks (catchRefresh r t e s) w =
     (if w = r then Some (t\<lparr>phase := Clearing e\<rparr>)
      else if w \<in> set (failedQueue s)
           then map_option (\<lambda>u. u\<lparr>phase := Settled (Rejected e)\<rparr>) (tasks s w)
           else tasks s w)"
  by (simp add: catchRefresh_def upd_def clearAccessToken_def processQueue_tasks settleWaiter_def
      cong: option.map_cong)

subsection \<open>The retry mark\<close>

text \<open>
  Claim C2 says that every request issued again after a renewal carries the retry mark, so
  that a second authorization failure on it is final. The theorem evaluates the code on two
  calls that fail together: call 1 renews, call 2 waits in the queue. When the renewal has
  succeeded, call 2 is issued again with \<^verbatim>\<open>_retry\<close> still unset; its second 401 is
  not rejected but sends the handler back to reading the renewal credential, and a second
  renewal call (with \<open>R2\<close>) follows.
\<close>

theorem queued_request_retried_unmarked:
  "map_option (retryOf 2)
     (run [Execute 1, Execute 2, Respond 1 (Fail (Status 401)), Respond 2 (Fail (Status 401)),
           ReadDone 1 True, ReadDone 2 True,
           RenewalDone 1 (Ok (Json (Some ''A2'') (Some ''R2'') (Some ''bearer''))),
           PersistDone 1 True] (boot (Some ''R1''))) = Some (Some False)
   \<and> map_option (phaseOf 2)
     (run [Execute 1, Execute 2, Respond 1 (Fail (Status 401)), Respond 2 (Fail (Status 401)),
           ReadDone 1 True, ReadDone 2 True,
           RenewalDone 1 (Ok (Json (Some ''A2'') (Some ''R2'') (Some ''bearer''))),
           PersistDone 1 True, Respond 2 (Fail (Status 401))] (boot (Some ''R1'')))
       = Some (Some (ReadingRenewal (RequestFailed (Status 401))))
   \<and> map_option refreshCalls
     (run [Execute 1, Execute 2, Respond 1 (Fail (Status 401)), Respond 2 (Fail (Status 401)),
           ReadDone 1 True, ReadDone 2 True,
           RenewalDone 1 (Ok (Json (Some ''A2'') (Some ''R2'') (Some ''bearer''))),
           PersistDone 1 True, Respond 2 (Fail (Status 401)), ReadDone 2 True]
        (boot (Some ''R1''))) = Some [''R1'', ''R2'']"
  by (simp add: pipeline_defs storage_defs boot_def retryOf_def phaseOf_def Let_def)

subsection \<open>Completion of the queued callers\<close>

text \<open>
  Claim C6 says that every caller queued during a renewal cycle is completed exactly once
  when the cycle settles, whatever the server answered. The theorem evaluates the code on
  two executions in which call 2 is queued behind the renewal of call 1. In the first the
  renewal answer has no access token but a renewal credential that is written
  successfully: \<^verbatim>\<open>processQueue(null, undefined)\<close> neither resolves nor rejects, the
  queue is emptied and the mutex released, and call 2 is still pending. In the second the
  renewal fails and call 2 finishes reading the renewal credential while the
  \<^verbatim>\<open>catch\<close> block awaits \<^verbatim>\<open>clearRefreshToken\<close>: it is queued after the
  queue was drained, and is still pending when the mutex is released.
\<close>

theorem waiter_never_completed:
  "map_option (phaseOf 2)
     (run [Execute 1, Execute 2, Respond 1 (Fail (Status 401)), Respond 2 (Fail (Status 401)),
           ReadDone 1 True, ReadDone 2 True,
           RenewalDone 1 (Ok (Json None (Some ''R2'') (Some ''bearer''))),
           PersistDone 1 True] (boot (Some ''R1''))) = Some (Some Queued)
   \<and> map_option failedQueue
     (run [Execute 1, Execute 2, Respond 1 (Fail (Status 401)), Respond 2 (Fail (Status 401)),
           ReadDone 1 True, ReadDone 2 True,
           RenewalDone 1 (Ok (Json None (Some ''R2'') (Some ''bearer''))),
           PersistDone 1 True] (boot (Some ''R1''))) = Some []
   \<and> map_option isRefreshing
     (run [Execute 1, Execute 2, Respond 1 (Fail (Status 401)), Respond 2 (Fail (Status 401)),
           ReadDone 1 True, ReadDone 2 True,
           RenewalDone 1 (Ok (Json None (Some ''R2'') (Some ''bearer''))),
           PersistDone 1 True] (boot (Some ''R1''))) = Some False
   \<and> map_option (phaseOf 2)
     (run [Execute 1, Execute 2, Respond 1 (Fail (Status 401)), Respond 2 (Fail (Status 401)),
           ReadDone 1 True, RenewalDone 1 (Fail (Status 401)), ReadDone 2 True,
           ClearDone 1 True] (boot (Some ''R1''))) = Some (Some Queued)
   \<and> map_option isRefreshing
     (run [Execute 1, Execute 2, Respond 1 (Fail (Status 401)), Respond 2 (Fail (Status 401)),
           ReadDone 1 True, RenewalDone 1 (Fail (Status 401)), ReadDone 2 True,
           ClearDone 1 True] (boot (Some ''R1''))) = Some False"
  by (simp add: pipeline_defs storage_defs boot_def phaseOf_def Let_def)

subsection \<open>The catch block of the renewal\<close>

lemma clear_done_step:
  assumes "tasks s r = Some t" and "phase t = Clearing e"
  shows "step (ClearDone r ok) s =
           Some ((upd r (t\<lparr>phase := Settled (Rejected e)\<rparr>) (clearRefreshToken ok s))
                   \<lparr>isRefreshing := False\<rparr>)"
  using assms by (simp add: onRefreshTokenCleared_def)

lemma renewal_failed_step:
  assumes "tasks s r = Some t" and "phase t = Renewing tok"
  shows "step (RenewalDone r (Fail f)) s = Some (catchRefresh r t (RenewalFailed f) s)"
  using assms by (simp add: onRenewalResponse_def)

lemma persist_failed_step:
  assumes "tasks s r = Some t" and "phase t = Persisting tok a n"
  shows "step (PersistDone r False) s = Some (catchRefresh r t StoreFailed s)"
  using assms by (simp add: onRefreshTokenWritten_def)

text \<open>
  Claim C5, as stated, has the renewal credential cleared from the store whenever the
  renewal call fails. It is not when \<^verbatim>\<open>SecureStore.deleteItemAsync\<close> throws:
  \<^verbatim>\<open>clearRefreshToken\<close> swallows the exception, the call ends with the renewal error
  and the mutex is released, and the store still holds \<open>R1\<close>.
\<close>

theorem renewal_failure_keeps_credential:
  "map_option secureStore
     (run [Execute 1, Respond 1 (Fail (Status 401)), ReadDone 1 True,
           RenewalDone 1 (Fail (Status 401)), ClearDone 1 False] (boot (Some ''R1'')))
     = Some (Some ''R1'')
   \<and> map_option (phaseOf 1)
     (run [Execute 1, Respond 1 (Fail (Status 401)), ReadDone 1 True,
           RenewalDone 1 (Fail (Status 401)), ClearDone 1 False] (boot (Some ''R1'')))
     = Some (Some (Settled (Rejected (RenewalFailed (Status 401)))))
   \<and> map_option isRefreshing
     (run [Execute 1, Respond 1 (Fail (Status 401)), ReadDone 1 True,
           RenewalDone 1 (Fail (Status 401)), ClearDone 1 False] (boot (Some ''R1'')))
     = Some False"
  by (simp add: pipeline_defs storage_defs boot_def phaseOf_def)

text \<open>
  Claim C5, amended. When the renewal call fails with \<open>f\<close>, in the same turn every caller
  that is in the queue is rejected with the renewal error \<open>RenewalFailed f\<close>, the queue is
  emptied, the access credential is cleared, and the initiating call awaits the deletion
  of the renewal credential. When the deletion returns, the initiating call is rejected
  with the renewal error (not with its original 401), the mutex is released, and the
  renewal credential is gone if the deletion succeeded and unchanged if it threw.
\<close>

theorem renewal_failure_path:
  "(tasks s r = Some t \<and> phase t = Renewing tok \<longrightarrow>
      (\<exists>s'. step (RenewalDone r (Fail f)) s = Some s'
         \<and> (\<forall>w tw. w \<in> set (failedQueue s) \<and> w \<noteq> r \<and> tasks s w = Some tw \<longrightarrow>
                tasks s' w = Some (tw\<lparr>phase := Settled (Rejected (RenewalFailed f))\<rparr>))
         \<and> failedQueue s' = [] \<and> accessToken s' = None \<and> secureStore s' = secureStore s
         \<and> tasks s' r = Some (t\<lparr>phase := Clearing (RenewalFailed f)\<rparr>)))
   \<and> (tasks s r = Some t \<and> phase t = Clearing e \<longrightarrow>
      (\<exists>s'. step (ClearDone r ok) s = Some s'
         \<and> tasks s' r = Some (t\<lparr>phase := Settled (Rejected e)\<rparr>)
         \<and> secureStore s' = (if ok then None else secureStore s)
         \<and> accessToken s' = accessToken s \<and> \<not> isRefreshing s'))"
proof (intro conjI impI)
  assume h: "tasks s r = Some t \<and> phase t = Renewing tok"
  then have "step (RenewalDone r (Fail f)) s = Some (catchRefresh r t (RenewalFailed f) s)"
    by (simp add: renewal_failed_step del: step.simps)
  then show "\<exists>s'. step (RenewalDone r (Fail f)) s = Some s'
         \<and> (\<forall>w tw. w \<in> set (failedQueue s) \<and> w \<noteq> r \<and> tasks s w = Some tw \<longrightarrow>
                tasks s' w = Some (tw\<lparr>phase := Settled (Rejected (RenewalFailed f))\<rparr>))
         \<and> failedQueue s' = [] \<and> accessToken s' = None \<and> secureStore s' = secureStore s
         \<and> tasks s' r = Some (t\<lparr>phase := Clearing (RenewalFailed f)\<rparr>)"
    by (simp add: catchRefresh_fields catchRefresh_tasks del: step.simps)
next
  assume h: "tasks s r = Some t \<and> phase t = Clearing e"
  then have "step (ClearDone r ok) s =
           Some ((upd r (t\<lparr>phase := Settled (Rejected e)\<rparr>) (clearRefreshToken ok s))
                   \<lparr>isRefreshing := False\<rparr>)"
    by (simp add: clear_done_step del: step.simps)
  then show "\<exists>s'. step (ClearDone r ok) s = Some s'
         \<and> tasks s' r = Some (t\<lparr>phase := Settled (Rejected e)\<rparr>)
         \<and> secureStore s' = (if ok then None else secureStore s)
         \<and> accessToken s' = accessToken s \<and> \<not> isRefreshing s'"
    by (simp add: upd_def clearRefreshToken_def del: step.simps)
qed

theorem renewal_failure_path_witness:
  "(\<exists>s'. step (RenewalDone 1 (Fail NoResponse))
            (upd 1 \<lparr>target = DataEp, authorization = None, retry = True, phase = Renewing ''R1''\<rparr>
              (upd 2 \<lparr>target = DataEp, authorization = None, retry = False, phase = Queued\<rparr>
                ((boot (Some ''R1''))\<lparr>isRefreshing := True, failedQueue := [2],
                    accessToken := Some ''A1''\<rparr>))) = Some s'
      \<and> tasks s' 2 = Some \<lparr>target = DataEp, authorization = None, retry = False,
                            phase = Settled (Rejected (RenewalFailed NoResponse))\<rparr>
      \<and> failedQueue s' = [] \<and> accessToken s' = None \<and> secureStore s' = Some ''R1''
      \<and> tasks s' 1 = Some \<lparr>target = DataEp, authorization = None, retry = True,
                            phase = Clearing (RenewalFailed NoResponse)\<rparr>)
   \<and> (\<exists>s'. step (ClearDone 1 True)
            (upd 1 \<lparr>target = DataEp, authorization = None, retry = True,
                    phase = Clearing (RenewalFailed NoResponse)\<rparr>
              ((boot (Some ''R1''))\<lparr>isRefreshing := True\<rparr>)) = Some s'
      \<and> tasks s' 1 = Some \<lparr>target = DataEp, authorization = None, retry = True,
                            phase = Settled (Rejected (RenewalFailed NoResponse))\<rparr>
      \<and> secureStore s' = None \<and> accessToken s' = None \<and> \<not> isRefreshing s')"
  using
    renewal_failure_path [of
      "upd 1 \<lparr>target = DataEp, authorization = None, retry = True, phase = Renewing ''R1''\<rparr>
        (upd 2 \<lparr>target = DataEp, authorization = None, retry = False, phase = Queued\<rparr>
          ((boot (Some ''R1''))\<lparr>isRefreshing := True, failedQueue := [2],
              accessToken := Some ''A1''\<rparr>))" 1
      "\<lparr>target = DataEp, authorization = None, retry = True, phase = Renewing ''R1''\<rparr>"
      "''R1''" NoResponse]
    renewal_failure_path [of
      "upd 1 \<lparr>target = DataEp, authorization = None, retry = True,
              phase = Clearing (RenewalFailed NoResponse)\<rparr>
        ((boot (Some ''R1''))\<lparr>isRefreshing := True\<rparr>)" 1
      "\<lparr>target = DataEp, authorization = None, retry = True,
        phase = Clearing (RenewalFailed NoResponse)\<rparr>"
      _ _ "RenewalFailed NoResponse" True]
  by (simp add: pipeline_defs storage_defs boot_def)

subsection \<open>A renewal that cannot be persisted\<close>

text \<open>
  Claim C10, as stated, has the persisted renewal credential cleared when the renewal
  succeeds and writing the rotated credential throws. With the secure store unavailable the
  deletion throws as well; the exception is swallowed and the store still holds \<open>R1\<close>,
  the credential that the server has just rotated.
\<close>

theorem persist_failure_keeps_credential:
  "map_option secureStore
     (run [Execute 1, Respond 1 (Fail (Status 401)), ReadDone 1 True,
           RenewalDone 1 (Ok (Json (Some ''A2'') (Some ''R2'') (Some ''bearer''))),
           PersistDone 1 False, ClearDone 1 False] (boot (Some ''R1'')))
     = Some (Some ''R1'')
   \<and> map_option (phaseOf 1)
     (run [Execute 1, Respond 1 (Fail (Status 401)), ReadDone 1 True,
           RenewalDone 1 (Ok (Json (Some ''A2'') (Some ''R2'') (Some ''bearer''))),
           PersistDone 1 False, ClearDone 1 False] (boot (Some ''R1'')))
     = Some (Some (Settled (Rejected StoreFailed)))"
  by (simp add: pipeline_defs storage_defs boot_def phaseOf_def)

text \<open>
  Claim C10, amended. When the renewal has succeeded and writing the rotated credential
  throws, in the same turn every caller in the queue is rejected with the storage error
  (none is issued again with the new access credential), the queue is emptied and the
  access credential set from the renewal answer is cleared; nothing is recorded as
  rotated. When the deletion of the renewal credential returns, the initiating call is
  rejected with the storage error and the mutex is released; the stored renewal credential
  is gone if the deletion succeeded and unchanged if it threw.
\<close>

theorem persist_failure_path:
  assumes "tasks s r = Some t" and "phase t = Persisting tok a n"
  shows "\<exists>s' s''. step (PersistDone r False) s = Some s'
     \<and> (\<forall>w tw. w \<in> set (failedQueue s) \<and> w \<noteq> r \<and> tasks s w = Some tw \<longrightarrow>
            tasks s' w = Some (tw\<lparr>phase := Settled (Rejected StoreFailed)\<rparr>))
     \<and> failedQueue s' = [] \<and> accessToken s' = None \<and> secureStore s' = secureStore s
     \<and> rotated s' = rotated s
     \<and> step (ClearDone r ok) s' = Some s''
     \<and> tasks s'' r = Some (t\<lparr>phase := Settled (Rejected StoreFailed)\<rparr>)
     \<and> accessToken s'' = None
     \<and> secureStore s'' = (if ok then None else secureStore s)
     \<and> \<not> isRefreshing s''"
proof -
  let ?s' = "catchRefresh r t StoreFailed s"
  have 1: "step (PersistDone r False) s = Some ?s'"
    using assms by (rule persist_failed_step)
  have 2: "tasks ?s' r = Some (t\<lparr>phase := Clearing StoreFailed\<rparr>)"
    by (simp add: catchRefresh_tasks)
  have 3: "step (ClearDone r ok) ?s' =
      Some ((upd r (t\<lparr>phase := Clearing StoreFailed, phase := Settled (Rejected StoreFailed)\<rparr>)
              (clearRefreshToken ok ?s'))\<lparr>isRefreshing := False\<rparr>)"
    using clear_done_step [OF 2, of StoreFailed ok] by simp
  show ?thesis
    by (simp add: 1 3 catchRefresh_fields catchRefresh_tasks upd_def clearRefreshToken_def
        del: step.simps)
qed

theorem persist_failure_path_witness:
  "\<exists>s' s''. step (PersistDone 1 False)
       (upd 1 \<lparr>target = DataEp, authorization = None, retry = True,
               phase = Persisting ''R1'' (Some ''A2'') (Some ''R2'')\<rparr>
         (upd 2 \<lparr>target = DataEp, authorization = None, retry = False, phase = Queued\<rparr>
           ((boot (Some ''R1''))\<lparr>isRefreshing := True, failedQueue := [2],
               accessToken := Some ''A2''\<rparr>))) = Some s'
     \<and> tasks s' 2 = Some \<lparr>target = DataEp, authorization = None, retry = False,
                           phase = Settled (Rejected StoreFailed)\<rparr>
     \<and> failedQueue s' = [] \<and> accessToken s' = None \<and> secureStore s' = Some ''R1''
     \<and> step (ClearDone 1 True) s' = Some s''
     \<and> tasks s'' 1 = Some \<lparr>target = DataEp, authorization = None, retry = True,
                            phase = Settled (Rejected StoreFailed)\<rparr>
     \<and> accessToken s'' = None \<and> secureStore s'' = None \<and> \<not> isRefreshing s''"
  using persist_failure_path [of
      "upd 1 \<lparr>target = DataEp, authorization = None, retry = True,
              phase = Persisting ''R1'' (Some ''A2'') (Some ''R2'')\<rparr>
        (upd 2 \<lparr>target = DataEp, authorization = None, retry = False, phase = Queued\<rparr>
          ((boot (Some ''R1''))\<lparr>isRefreshing := True, failedQueue := [2],
              accessToken := Some ''A2''\<rparr>))" 1
      "\<lparr>target = DataEp, authorization = None, retry = True,
        phase = Persisting ''R1'' (Some ''A2'') (Some ''R2'')\<rparr>"
      "''R1''" "Some ''A2''" "Some ''R2''" True]
  by (simp add: pipeline_defs storage_defs boot_def)

subsection \<open>Single flight\<close>

lemma commitRenewal_fields:
  "failedQueue (commitRenewal r t tok a n s) = []"
  "isRefreshing (commitRenewal r t tok a n s) = False"
  "accessToken (commitRenewal r t tok a n s) = accessToken s"
  "secureStore (commitRenewal r t tok a n s) = n"
  "ops (commitRenewal r t tok a n s) = ops s"
  "isAuthenticated (commitRenewal r t tok a n s) = isAuthenticated s"
  "isLoading (commitRenewal r t tok a n s) = isLoading s"
  "refreshCalls (commitRenewal r t tok a n s) = refreshCalls s"
  "rotated (commitRenewal r t tok a n s) = rotated s @ [tok]"
  by (simp_all add: commitRenewal_def Let_def upd_def setRefreshToken_def)


lemma commitRenewal_tasks:
  "tasks (commitRenewal r t tok a n s) w =
     (if w = r
      then Some (t\<lparr>authorization :=
                    Some (bearer (if truthy (accessToken s) then accessToken s else a)),
                  phase := InFlight\<rparr>)
      else if w \<in> set (failedQueue s)
           then map_option (settleWaiter None a s) (tasks s w)
           else tasks s w)"
proof -
  have "settleWaiter None a (setRefreshToken n s) = settleWaiter None a s"
    by (rule ext) (simp add: settleWaiter_def apiClient_def attach_def getAccessToken_def
        setRefreshToken_def)
  then show ?thesis
    by (simp add: commitRenewal_def Let_def upd_def processQueue_tasks apiClient_def attach_def
        getAccessToken_def setRefreshToken_def)
qed



lemma upd_fields [simp]:
  "isRefreshing (upd r t s) = isRefreshing s"
  "failedQueue (upd r t s) = failedQueue s"
  "accessToken (upd r t s) = accessToken s"
  "secureStore (upd r t s) = secureStore s"
  "ops (upd r t s) = ops s"
  "isAuthenticated (upd r t s) = isAuthenticated s"
  "isLoading (upd r t s) = isLoading s"
  "refreshCalls (upd r t s) = refreshCalls s"
  "rotated (upd r t s) = rotated s"
  by (simp_all add: upd_def)

lemma tasks_upd: "tasks (upd r t s) w = (if w = r then Some t else tasks s w)"
  by (simp add: upd_def)


lemma holders_frame:
  "tasks s' = tasks s \<Longrightarrow> holders s' = holders s"
  by (simp add: holders_def)

lemma holders_upd:
  "holders (upd r t s) = (if holdsMutex (phase t) then insert r (holders s) else holders s - {r})"
  by (auto simp: holders_def upd_def)

lemma holders_tasks_update:
  "holders (s\<lparr>tasks := (tasks s)(r \<mapsto> t)\<rparr>) =
     (if holdsMutex (phase t) then insert r (holders s) else holders s - {r})"
  using holders_upd [of r t s] by (simp add: upd_def)

lemma holders_updates [simp]:
  "holders (s\<lparr>isRefreshing := b\<rparr>) = holders s"
  "holders (s\<lparr>failedQueue := q\<rparr>) = holders s"
  "holders (s\<lparr>accessToken := v\<rparr>) = holders s"
  "holders (s\<lparr>secureStore := v\<rparr>) = holders s"
  "holders (s\<lparr>ops := m\<rparr>) = holders s"
  "holders (s\<lparr>isAuthenticated := b\<rparr>) = holders s"
  "holders (s\<lparr>isLoading := b\<rparr>) = holders s"
  "holders (s\<lparr>refreshCalls := l\<rparr>) = holders s"
  "holders (s\<lparr>rotated := l\<rparr>) = holders s"
  by (simp_all add: holders_def)
















text \<open>
  The mutex of \<^verbatim>\<open>client.ts\<close> is there, by its comment, to prevent concurrent refresh
  attempts. The startup effect of \<^verbatim>\<open>AuthProvider\<close> posts to the refresh endpoint
  through \<^verbatim>\<open>endpoints.refreshTokens\<close> without taking it: its request 10 is in
  flight with \<open>R1\<close> when call 1 gets a 401 and posts a renewal with the same \<open>R1\<close>.
  The startup refresh is answered first and stores \<open>A2\<close> and \<open>R2\<close>; the renewal of
  call 1 is then refused, and its \<^verbatim>\<open>catch\<close> block clears both, while
  \<^verbatim>\<open>isAuthenticated\<close> stays true.
\<close>

theorem startup_refresh_beside_renewal:
  "map_option (targetOf 10)
     (run [Mount 0, StartupReadDone 0 True 10, Execute 1, Respond 1 (Fail (Status 401)),
           ReadDone 1 True] (boot (Some ''R1''))) = Some (Some (RefreshEp ''R1''))
   \<and> map_option (phaseOf 10)
     (run [Mount 0, StartupReadDone 0 True 10, Execute 1, Respond 1 (Fail (Status 401)),
           ReadDone 1 True] (boot (Some ''R1''))) = Some (Some InFlight)
   \<and> map_option (phaseOf 1)
     (run [Mount 0, StartupReadDone 0 True 10, Execute 1, Respond 1 (Fail (Status 401)),
           ReadDone 1 True] (boot (Some ''R1''))) = Some (Some (Renewing ''R1''))
   \<and> map_option (\<lambda>s. (getAccessToken s, secureStore s, isAuthenticated s))
     (run [Mount 0, StartupReadDone 0 True 10, Execute 1, Respond 1 (Fail (Status 401)),
           ReadDone 1 True,
           Respond 10 (Ok (Json (Some ''A2'') (Some ''R2'') (Some ''bearer''))),
           Resume 0, Saved 0 True] (boot (Some ''R1'')))
       = Some (Some ''A2'', Some ''R2'', True)
   \<and> map_option (\<lambda>s. (getAccessToken s, secureStore s, isAuthenticated s))
     (run [Mount 0, StartupReadDone 0 True 10, Execute 1, Respond 1 (Fail (Status 401)),
           ReadDone 1 True,
           Respond 10 (Ok (Json (Some ''A2'') (Some ''R2'') (Some ''bearer''))),
           Resume 0, Saved 0 True,
           RenewalDone 1 (Fail (Status 401)), ClearDone 1 True] (boot (Some ''R1'')))
       = Some (None, None, True)"
  by (simp add: pipeline_defs session_defs storage_defs boot_def phaseOf_def targetOf_def Let_def)



subsection \<open>Single use of the renewal credentials\<close>

lemma tokInvI:
  assumes "set (rotated s) \<subseteq> K"
    and "\<And>v. secureStore s = Some v \<Longrightarrow> v \<in> K \<and> v \<notin> set (rotated s)"
    and "\<And>r v. holderTok s r = Some v \<Longrightarrow> v \<in> K"
    and "\<And>x n. slotTok s x = Some n \<Longrightarrow>
           n \<in> K \<and> n \<notin> set (rotated s) \<and> secureStore s \<noteq> Some n \<and>
           (\<forall>r. holderTok s r \<noteq> Some n)"
    and "\<And>x y n. slotTok s x = Some n \<Longrightarrow> slotTok s y = Some n \<Longrightarrow> x = y"
  shows "tokInv K s"
  using assms unfolding tokInv_def by blast

lemma tokInv_rotated: "tokInv K s \<Longrightarrow> set (rotated s) \<subseteq> K"
  by (simp add: tokInv_def)

lemma tokInv_store: "tokInv K s \<Longrightarrow> secureStore s = Some v \<Longrightarrow> v \<in> K \<and> v \<notin> set (rotated s)"
  by (simp add: tokInv_def)

lemma tokInv_holder: "tokInv K s \<Longrightarrow> holderTok s r = Some v \<Longrightarrow> v \<in> K"
  unfolding tokInv_def by blast

lemma tokInv_slot:
  "tokInv K s \<Longrightarrow> slotTok s x = Some n \<Longrightarrow>
     n \<in> K \<and> n \<notin> set (rotated s) \<and> secureStore s \<noteq> Some n \<and> holderTok s r \<noteq> Some n"
  unfolding tokInv_def by blast

lemma tokInv_linear:
  "tokInv K s \<Longrightarrow> slotTok s x = Some n \<Longrightarrow> slotTok s y = Some n \<Longrightarrow> x = y"
  unfolding tokInv_def by blast

lemma tokInv_shrink:
  assumes inv: "tokInv K s" and sub: "K \<subseteq> K'"
    and rot: "rotated s' = rotated s"
    and sto: "secureStore s' = secureStore s \<or> secureStore s' = None"
    and hol: "\<And>r. holderTok s' r = holderTok s r \<or> holderTok s' r = None"
    and slo: "\<And>x. slotTok s' x = slotTok s x \<or> slotTok s' x = None"
  shows "tokInv K' s'"
proof (rule tokInvI)
  show "set (rotated s') \<subseteq> K'" using tokInv_rotated [OF inv] sub rot by auto
next
  fix v assume "secureStore s' = Some v"
  with sto have "secureStore s = Some v" by auto
  from tokInv_store [OF inv this] sub rot show "v \<in> K' \<and> v \<notin> set (rotated s')" by auto
next
  fix r v assume "holderTok s' r = Some v"
  with hol [of r] have "holderTok s r = Some v" by auto
  from tokInv_holder [OF inv this] sub show "v \<in> K'" by auto
next
  fix x n assume "slotTok s' x = Some n"
  with slo [of x] have a: "slotTok s x = Some n" by auto
  have "holderTok s' r \<noteq> Some n" for r
    using tokInv_slot [OF inv a, of r] hol [of r] by auto
  moreover have "secureStore s' \<noteq> Some n"
    using tokInv_slot [OF inv a] sto by auto
  moreover have "n \<in> K' \<and> n \<notin> set (rotated s')"
    using tokInv_slot [OF inv a] sub rot by auto
  ultimately show "n \<in> K' \<and> n \<notin> set (rotated s') \<and> secureStore s' \<noteq> Some n \<and>
        (\<forall>r. holderTok s' r \<noteq> Some n)" by blast
next
  fix x y n assume "slotTok s' x = Some n" and "slotTok s' y = Some n"
  with slo [of x] slo [of y] have "slotTok s x = Some n" and "slotTok s y = Some n"
    by auto
  then show "x = y" by (rule tokInv_linear [OF inv])
qed

lemma tokInv_slot_gain:
  assumes inv: "tokInv K s" and fresh: "n \<notin> K"
    and rot: "rotated s' = rotated s"
    and sto: "secureStore s' = secureStore s"
    and hol: "\<And>r. holderTok s' r = holderTok s r"
    and slo: "\<And>y. y \<noteq> x \<Longrightarrow> slotTok s' y = slotTok s y \<or> slotTok s' y = None"
    and new: "slotTok s' x = Some n"
  shows "tokInv (insert n K) s'"
proof (rule tokInvI)
  show "set (rotated s') \<subseteq> insert n K" using tokInv_rotated [OF inv] rot by auto
next
  fix v assume "secureStore s' = Some v"
  with sto have "secureStore s = Some v" by simp
  from tokInv_store [OF inv this] rot show "v \<in> insert n K \<and> v \<notin> set (rotated s')" by auto
next
  fix r v assume "holderTok s' r = Some v"
  with hol have "holderTok s r = Some v" by simp
  from tokInv_holder [OF inv this] show "v \<in> insert n K" by auto
next
  fix y m assume h: "slotTok s' y = Some m"
  show "m \<in> insert n K \<and> m \<notin> set (rotated s') \<and> secureStore s' \<noteq> Some m \<and>
        (\<forall>r. holderTok s' r \<noteq> Some m)"
  proof (cases "y = x")
    case True
    with h new have "m = n" by simp
    moreover have "n \<notin> set (rotated s)"
      using tokInv_rotated [OF inv] fresh by auto
    moreover have "secureStore s \<noteq> Some n"
      using tokInv_store [OF inv, of n] fresh by auto
    moreover have "holderTok s r \<noteq> Some n" for r
      using tokInv_holder [OF inv, of r n] fresh by auto
    ultimately show ?thesis using rot sto hol by simp
  next
    case False
    with h slo [of y] have a: "slotTok s y = Some m" by auto
    have "holderTok s' r \<noteq> Some m" for r
      using tokInv_slot [OF inv a, of r] hol by simp
    then show ?thesis using tokInv_slot [OF inv a] rot sto by auto
  qed
next
  fix y z m assume hy: "slotTok s' y = Some m" and hz: "slotTok s' z = Some m"
  have old: "slotTok s w = Some m \<Longrightarrow> m \<in> K" for w
    using tokInv_slot [OF inv] by blast
  show "y = z"
  proof (cases "y = x")
    case yx: True
    show ?thesis
    proof (cases "z = x")
      case True with yx show ?thesis by simp
    next
      case False
      with hz slo [of z] have "slotTok s z = Some m" by auto
      moreover from yx hy new have "m = n" by simp
      ultimately show ?thesis using old fresh by blast
    qed
  next
    case yx: False
    with hy slo [of y] have a: "slotTok s y = Some m" by auto
    show ?thesis
    proof (cases "z = x")
      case True
      with hz new have "m = n" by simp
      with a old fresh show ?thesis by blast
    next
      case False
      with hz slo [of z] have "slotTok s z = Some m" by auto
      with a show ?thesis by (rule tokInv_linear [OF inv])
    qed
  qed
qed

lemma tokInv_holder_gain:
  assumes inv: "tokInv K s"
    and rot: "rotated s' = rotated s"
    and sto: "secureStore s' = secureStore s"
    and hol: "\<And>r. r \<noteq> h \<Longrightarrow> holderTok s' r = holderTok s r \<or> holderTok s' r = None"
    and new: "holderTok s' h = secureStore s"
    and slo: "\<And>x. slotTok s' x = slotTok s x \<or> slotTok s' x = None"
  shows "tokInv K s'"
proof (rule tokInvI)
  show "set (rotated s') \<subseteq> K" using tokInv_rotated [OF inv] rot by auto
next
  fix v assume "secureStore s' = Some v"
  with sto have "secureStore s = Some v" by simp
  from tokInv_store [OF inv this] rot show "v \<in> K \<and> v \<notin> set (rotated s')" by auto
next
  fix r v assume a: "holderTok s' r = Some v"
  show "v \<in> K"
  proof (cases "r = h")
    case True
    with a new have "secureStore s = Some v" by simp
    from tokInv_store [OF inv this] show ?thesis by simp
  next
    case False
    with a hol [of r] have "holderTok s r = Some v" by auto
    then show ?thesis by (rule tokInv_holder [OF inv])
  qed
next
  fix x n assume "slotTok s' x = Some n"
  with slo [of x] have a: "slotTok s x = Some n" by auto
  have "holderTok s' r \<noteq> Some n" for r
  proof (cases "r = h")
    case True
    then show ?thesis using tokInv_slot [OF inv a] new by auto
  next
    case False
    then show ?thesis using tokInv_slot [OF inv a, of r] hol [of r] by auto
  qed
  then show "n \<in> K \<and> n \<notin> set (rotated s') \<and> secureStore s' \<noteq> Some n \<and>
        (\<forall>r. holderTok s' r \<noteq> Some n)"
    using tokInv_slot [OF inv a] rot sto by auto
next
  fix x y n assume "slotTok s' x = Some n" and "slotTok s' y = Some n"
  with slo [of x] slo [of y] have "slotTok s x = Some n" and "slotTok s y = Some n"
    by auto
  then show "x = y" by (rule tokInv_linear [OF inv])
qed

lemma tokInv_store_from_slot:
  assumes inv: "tokInv K s"
    and rot: "rotated s' = rotated s @ spent"
    and spent: "\<And>v. v \<in> set spent \<Longrightarrow> \<exists>r. holderTok s r = Some v"
    and sto: "secureStore s' = slotTok s x \<or> secureStore s' = None"
    and hol: "\<And>r. holderTok s' r = holderTok s r \<or> holderTok s' r = None"
    and slo: "\<And>y. y \<noteq> x \<Longrightarrow> slotTok s' y = slotTok s y \<or> slotTok s' y = None"
    and gone: "slotTok s' x = None"
  shows "tokInv K s'"
proof (rule tokInvI)
  have "set spent \<subseteq> K" using spent tokInv_holder [OF inv] by blast
  then show "set (rotated s') \<subseteq> K" using tokInv_rotated [OF inv] rot by auto
next
  fix v assume "secureStore s' = Some v"
  with sto have a: "slotTok s x = Some v" by auto
  have "v \<notin> set spent" using spent tokInv_slot [OF inv a] by blast
  then show "v \<in> K \<and> v \<notin> set (rotated s')" using tokInv_slot [OF inv a] rot by auto
next
  fix r v assume "holderTok s' r = Some v"
  with hol [of r] have "holderTok s r = Some v" by auto
  then show "v \<in> K" by (rule tokInv_holder [OF inv])
next
  fix y n assume h: "slotTok s' y = Some n"
  with gone have ne: "y \<noteq> x" by auto
  with h slo [of y] have a: "slotTok s y = Some n" by auto
  have "slotTok s x \<noteq> Some n"
    using a ne tokInv_linear [OF inv, of y n x] by auto
  with sto have "secureStore s' \<noteq> Some n" by auto
  moreover have "holderTok s' r \<noteq> Some n" for r
    using tokInv_slot [OF inv a, of r] hol [of r] by auto
  moreover have "n \<notin> set spent" using spent tokInv_slot [OF inv a] by blast
  then have "n \<notin> set (rotated s')" using tokInv_slot [OF inv a] rot by auto
  ultimately show "n \<in> K \<and> n \<notin> set (rotated s') \<and> secureStore s' \<noteq> Some n \<and>
        (\<forall>r. holderTok s' r \<noteq> Some n)" using tokInv_slot [OF inv a] by blast
next
  fix y z n assume hy: "slotTok s' y = Some n" and hz: "slotTok s' z = Some n"
  with gone have "y \<noteq> x" and "z \<noteq> x" by auto
  with hy hz slo [of y] slo [of z]
  have "slotTok s y = Some n" and "slotTok s z = Some n" by auto
  then show "y = z" by (rule tokInv_linear [OF inv])
qed

lemma bodyTok_simps [simp]:
  "bodyTok None = None"
  "bodyTok (Some t) = phBody (phase t)"
  by (simp_all add: bodyTok_def)

lemma tok_updates [simp]:
  "taskTok (s\<lparr>isRefreshing := b\<rparr>) = taskTok s"
  "taskTok (s\<lparr>failedQueue := q\<rparr>) = taskTok s"
  "taskTok (s\<lparr>accessToken := v\<rparr>) = taskTok s"
  "taskTok (s\<lparr>secureStore := v\<rparr>) = taskTok s"
  "taskTok (s\<lparr>ops := m\<rparr>) = taskTok s"
  "taskTok (s\<lparr>isAuthenticated := b\<rparr>) = taskTok s"
  "taskTok (s\<lparr>isLoading := b\<rparr>) = taskTok s"
  "taskTok (s\<lparr>refreshCalls := l\<rparr>) = taskTok s"
  "taskTok (s\<lparr>rotated := l\<rparr>) = taskTok s"
  "holderTok (s\<lparr>isRefreshing := b\<rparr>) = holderTok s"
  "holderTok (s\<lparr>failedQueue := q\<rparr>) = holderTok s"
  "holderTok (s\<lparr>accessToken := v\<rparr>) = holderTok s"
  "holderTok (s\<lparr>secureStore := v\<rparr>) = holderTok s"
  "holderTok (s\<lparr>ops := m\<rparr>) = holderTok s"
  "holderTok (s\<lparr>isAuthenticated := b\<rparr>) = holderTok s"
  "holderTok (s\<lparr>isLoading := b\<rparr>) = holderTok s"
  "holderTok (s\<lparr>refreshCalls := l\<rparr>) = holderTok s"
  "holderTok (s\<lparr>rotated := l\<rparr>) = holderTok s"
  "opTok (s\<lparr>isRefreshing := b\<rparr>) = opTok s"
  "opTok (s\<lparr>failedQueue := q\<rparr>) = opTok s"
  "opTok (s\<lparr>accessToken := v\<rparr>) = opTok s"
  "opTok (s\<lparr>secureStore := v\<rparr>) = opTok s"
  "opTok (s\<lparr>isAuthenticated := b\<rparr>) = opTok s"
  "opTok (s\<lparr>isLoading := b\<rparr>) = opTok s"
  "opTok (s\<lparr>refreshCalls := l\<rparr>) = opTok s"
  "opTok (s\<lparr>rotated := l\<rparr>) = opTok s"
  "awaits (s\<lparr>isRefreshing := b\<rparr>) = awaits s"
  "awaits (s\<lparr>failedQueue := q\<rparr>) = awaits s"
  "awaits (s\<lparr>accessToken := v\<rparr>) = awaits s"
  "awaits (s\<lparr>secureStore := v\<rparr>) = awaits s"
  "awaits (s\<lparr>tasks := ts\<rparr>) = awaits s"
  "awaits (s\<lparr>isAuthenticated := b\<rparr>) = awaits s"
  "awaits (s\<lparr>isLoading := b\<rparr>) = awaits s"
  "awaits (s\<lparr>refreshCalls := l\<rparr>) = awaits s"
  "awaits (s\<lparr>rotated := l\<rparr>) = awaits s"
  by (auto simp: taskTok_def holderTok_def opTok_def awaits_def fun_eq_iff
      split: option.splits opphase.splits)

lemma taskTok_upd:
  "taskTok (upd r t s) w = (if w = r then phTask (phase t) else taskTok s w)"
  by (simp add: taskTok_def upd_def)

lemma holderTok_upd:
  "holderTok (upd r t s) w = (if w = r then phHolder (phase t) else holderTok s w)"
  by (simp add: holderTok_def upd_def)

lemma opTok_upd:
  "opTok (upd r t s) i = (if awaits s i r then bodyTok (Some t) else opTok s i)"
  by (cases "ops s i"; cases "ophase (the (ops s i))")
     (auto simp: opTok_def upd_def awaits_def)

lemma awaits_upd [simp]: "awaits (upd r t s) = awaits s"
  by (simp add: upd_def)

lemma opTok_setOp:
  "opTok (setOp i p s) j = (if j = i then opPhaseTok (tasks s) (ophase p) else opTok s j)"
  by (auto simp: opTok_def setOp_def split: option.splits opphase.splits)

lemma awaits_setOp:
  "awaits (setOp i p s) j r = (if j = i then ophase p = Awaiting r else awaits s j r)"
  by (simp add: awaits_def setOp_def)

lemma setOp_fields [simp]:
  "isRefreshing (setOp i p s) = isRefreshing s"
  "failedQueue (setOp i p s) = failedQueue s"
  "accessToken (setOp i p s) = accessToken s"
  "secureStore (setOp i p s) = secureStore s"
  "tasks (setOp i p s) = tasks s"
  "isAuthenticated (setOp i p s) = isAuthenticated s"
  "isLoading (setOp i p s) = isLoading s"
  "refreshCalls (setOp i p s) = refreshCalls s"
  "rotated (setOp i p s) = rotated s"
  "taskTok (setOp i p s) = taskTok s"
  "holderTok (setOp i p s) = holderTok s"
  by (simp_all add: setOp_def)

lemma opPhaseTok_shrink:
  assumes "\<And>w. bodyTok (ts' w) = bodyTok (ts w) \<or> bodyTok (ts' w) = None"
  shows "opPhaseTok ts' ph = opPhaseTok ts ph \<or> opPhaseTok ts' ph = None"
  using assms by (cases ph) auto

lemma opTok_shrink:
  assumes "ops s' = ops s"
    and "\<And>w. bodyTok (tasks s' w) = bodyTok (tasks s w) \<or> bodyTok (tasks s' w) = None"
  shows "opTok s' i = opTok s i \<or> opTok s' i = None"
proof (cases "ops s i")
  case None
  with assms(1) show ?thesis by (simp add: opTok_def)
next
  case (Some p)
  with assms(1) opPhaseTok_shrink [of "tasks s'" "tasks s" "ophase p", OF assms(2)]
  show ?thesis by (simp add: opTok_def)
qed

lemma settleWaiter_phase:
  "phase (settleWaiter err tok s t) = phase t \<or>
   phase (settleWaiter err tok s t) = InFlight \<or>
   (\<exists>e. phase (settleWaiter err tok s t) = Settled (Rejected e))"
  by (auto simp: settleWaiter_def apiClient_def attach_def split: option.splits)

lemma drained_abs:
  assumes "tasks s' w = tasks s w \<or> (\<exists>t. tasks s w = Some t \<and>
             tasks s' w = Some (settleWaiter err tok s0 t))"
  shows "(taskTok s' w = taskTok s w \<or> taskTok s' w = None) \<and>
         (holderTok s' w = holderTok s w \<or> holderTok s' w = None) \<and>
         (bodyTok (tasks s' w) = bodyTok (tasks s w) \<or> bodyTok (tasks s' w) = None)"
proof -
  from assms show ?thesis
  proof
    assume "tasks s' w = tasks s w"
    then show ?thesis by (simp add: taskTok_def holderTok_def)
  next
    assume "\<exists>t. tasks s w = Some t \<and> tasks s' w = Some (settleWaiter err tok s0 t)"
    then obtain t where t: "tasks s w = Some t" "tasks s' w = Some (settleWaiter err tok s0 t)"
      by blast
    from settleWaiter_phase [of err tok s0 t] show ?thesis
      by (auto simp: taskTok_def holderTok_def t)
  qed
qed

lemma processQueue_drained:
  "tasks (processQueue err tok s) w = tasks s w \<or>
   (\<exists>t. tasks s w = Some t \<and> tasks (processQueue err tok s) w = Some (settleWaiter err tok s t))"
  by (cases "tasks s w") (auto simp: processQueue_tasks)

lemma catchRefresh_abs:
  "taskTok (catchRefresh r t e s) w = taskTok s w \<or> taskTok (catchRefresh r t e s) w = None"
  "holderTok (catchRefresh r t e s) w = holderTok s w \<or> holderTok (catchRefresh r t e s) w = None"
  "opTok (catchRefresh r t e s) i = opTok s i \<or> opTok (catchRefresh r t e s) i = None"
proof -
  let ?q = "processQueue (Some e) None s"
  have q: "(taskTok ?q w = taskTok s w \<or> taskTok ?q w = None) \<and>
         (holderTok ?q w = holderTok s w \<or> holderTok ?q w = None) \<and>
         (bodyTok (tasks ?q w) = bodyTok (tasks s w) \<or> bodyTok (tasks ?q w) = None)" for w
    by (rule drained_abs [OF processQueue_drained])
  show "taskTok (catchRefresh r t e s) w = taskTok s w \<or> taskTok (catchRefresh r t e s) w = None"
    using q [of w] by (auto simp: catchRefresh_def taskTok_upd clearAccessToken_def)
  show "holderTok (catchRefresh r t e s) w = holderTok s w \<or>
        holderTok (catchRefresh r t e s) w = None"
    using q [of w] by (auto simp: catchRefresh_def holderTok_upd clearAccessToken_def)
  have "awaits ?q = awaits s" by (simp add: processQueue_def)
  moreover have "opTok ?q i = opTok s i \<or> opTok ?q i = None"
    by (rule opTok_shrink) (use q in auto)
  ultimately show "opTok (catchRefresh r t e s) i = opTok s i \<or>
        opTok (catchRefresh r t e s) i = None"
    by (auto simp: catchRefresh_def opTok_upd clearAccessToken_def)
qed

lemma commitRenewal_abs:
  "taskTok (commitRenewal r t tok a n s) r = None"
  "holderTok (commitRenewal r t tok a n s) r = None"
  "taskTok (commitRenewal r t tok a n s) w = taskTok s w \<or>
   taskTok (commitRenewal r t tok a n s) w = None"
  "holderTok (commitRenewal r t tok a n s) w = holderTok s w \<or>
   holderTok (commitRenewal r t tok a n s) w = None"
  "opTok (commitRenewal r t tok a n s) i = opTok s i \<or>
   opTok (commitRenewal r t tok a n s) i = None"
proof -
  let ?c = "commitRenewal r t tok a n s"
  have d: "w \<noteq> r \<Longrightarrow> tasks ?c w = tasks s w \<or>
      (\<exists>u. tasks s w = Some u \<and> tasks ?c w = Some (settleWaiter None a s u))" for w
    by (cases "tasks s w") (auto simp: commitRenewal_tasks)
  have r: "\<exists>u. tasks ?c r = Some u \<and> phase u = InFlight"
    by (simp add: commitRenewal_tasks)
  have q: "(taskTok ?c w = taskTok s w \<or> taskTok ?c w = None) \<and>
         (holderTok ?c w = holderTok s w \<or> holderTok ?c w = None) \<and>
         (bodyTok (tasks ?c w) = bodyTok (tasks s w) \<or> bodyTok (tasks ?c w) = None)" for w
  proof (cases "w = r")
    case True
    with r show ?thesis by (auto simp: taskTok_def holderTok_def)
  next
    case False
    then show ?thesis by (rule drained_abs [OF d])
  qed
  show "taskTok ?c r = None" "holderTok ?c r = None"
    using r by (auto simp: taskTok_def holderTok_def)
  show "taskTok ?c w = taskTok s w \<or> taskTok ?c w = None"
    "holderTok ?c w = holderTok s w \<or> holderTok ?c w = None"
    using q [of w] by auto
  have "ops ?c = ops s" by (simp add: commitRenewal_fields)
  then show "opTok ?c i = opTok s i \<or> opTok ?c i = None"
    by (rule opTok_shrink) (use q in auto)
qed

lemma slot_cases:
  assumes "\<And>w. taskTok s' w = taskTok s w \<or> taskTok s' w = None"
    and "\<And>i. opTok s' i = opTok s i \<or> opTok s' i = None"
  shows "slotTok s' x = slotTok s x \<or> slotTok s' x = None"
  using assms by (cases x) auto

text \<open>Tasks are never removed; the pipeline does not touch the session operations.\<close>

lemma apiClient_phase [simp]: "phase (apiClient s t) = InFlight"
  by (simp add: apiClient_def)

lemma newRequest_tasks:
  "newRequest r ep s = Some s' \<Longrightarrow>
     tasks s r = None \<and> (\<exists>t. phase t = InFlight \<and> s' = upd r t s)"
  by (cases "tasks s r") (auto simp: newRequest_def intro: apiClient_phase)

lemma awaits_None: "ops s i = None \<Longrightarrow> \<not> awaits s i r"
  by (simp add: awaits_def)

lemma awaits_Some: "ops s i = Some p \<Longrightarrow> awaits s i r \<longleftrightarrow> ophase p = Awaiting r"
  by (simp add: awaits_def)

lemma pipeline_ops:
  assumes "pipelineEvent e" and "step e s = Some s'"
  shows "ops s' = ops s"
proof (cases e)
  case (Execute r)
  with assms show ?thesis by (auto dest!: newRequest_tasks)
next
  case (Respond r out)
  with assms show ?thesis
    by (auto simp: onResponse_def split: option.splits phase.splits outcome.splits if_splits)
next
  case (ReadDone r ok)
  with assms show ?thesis
    by (auto simp: onRefreshTokenRead_def split: option.splits phase.splits if_splits)
next
  case (RenewalDone r out)
  with assms show ?thesis
    by (auto simp: onRenewalResponse_def catchRefresh_fields setAccessToken_def
        split: option.splits phase.splits outcome.splits body.splits)
next
  case (PersistDone r ok)
  with assms show ?thesis
    by (auto simp: onRefreshTokenWritten_def catchRefresh_fields commitRenewal_fields
        split: option.splits phase.splits if_splits)
next
  case (ClearDone r ok)
  with assms show ?thesis
    by (auto simp: onRefreshTokenCleared_def clearRefreshToken_def
        split: option.splits phase.splits if_splits)
qed (use assms in simp_all)

lemma tasks_upd_mono: "tasks s r \<noteq> None \<Longrightarrow> tasks (upd w t s) r \<noteq> None"
  by (simp add: tasks_upd)

lemma step_tasks_mono:
  assumes "step e s = Some s'" and "tasks s r \<noteq> None"
  shows "tasks s' r \<noteq> None"
proof (cases e)
  case (Execute w)
  with assms show ?thesis by (auto dest!: newRequest_tasks simp: tasks_upd)
next
  case (Respond w out)
  with assms show ?thesis
    by (auto simp: onResponse_def tasks_upd
        split: option.splits phase.splits outcome.splits if_splits)
next
  case (ReadDone w ok)
  with assms show ?thesis
    by (auto simp: onRefreshTokenRead_def tasks_upd
        split: option.splits phase.splits if_splits)
next
  case (RenewalDone w out)
  with assms show ?thesis
    by (auto simp: onRenewalResponse_def catchRefresh_tasks tasks_upd setAccessToken_def
        split: option.splits phase.splits outcome.splits body.splits if_splits)
next
  case (PersistDone w ok)
  with assms show ?thesis
    by (auto simp: onRefreshTokenWritten_def catchRefresh_tasks commitRenewal_tasks
        split: option.splits phase.splits if_splits)
next
  case (ClearDone w ok)
  with assms show ?thesis
    by (auto simp: onRefreshTokenCleared_def tasks_upd clearRefreshToken_def
        split: option.splits phase.splits if_splits)
next
  case (Mount i)
  with assms show ?thesis by (auto simp: mount_def split: option.splits)
next
  case (StartupReadDone i ok w)
  with assms show ?thesis
    by (auto simp: onStartupRead_def tasks_upd
        split: option.splits opphase.splits if_splits dest!: newRequest_tasks)
next
  case (Call i k w)
  with assms show ?thesis
    by (auto simp: callAuth_def tasks_upd clearAccessToken_def
        split: option.splits opkind.splits dest!: newRequest_tasks)
next
  case (Resume i)
  with assms show ?thesis
    by (auto simp: onOpResume_def opThrow_def setAccessToken_def clearAccessToken_def
        split: option.splits opphase.splits phase.splits result.splits body.splits if_splits)
next
  case (Saved i ok)
  with assms show ?thesis
    by (auto simp: onOpSaved_def opThrow_def setRefreshToken_def clearAccessToken_def
        split: option.splits opphase.splits if_splits)
next
  case (Cleared i ok)
  with assms show ?thesis
    by (auto simp: onOpCleared_def clearRefreshToken_def
        split: option.splits opphase.splits if_splits)
qed

lemma awaitInv_shrink:
  assumes "awaitInv s"
    and "\<And>r. tasks s r \<noteq> None \<Longrightarrow> tasks s' r \<noteq> None"
    and "\<And>i r. awaits s' i r \<Longrightarrow> awaits s i r"
  shows "awaitInv s'"
  using assms unfolding awaitInv_def by blast

lemma awaitInv_gain:
  assumes "awaitInv s" and "tasks s r = None" and "tasks s' r \<noteq> None"
    and "\<And>w. tasks s w \<noteq> None \<Longrightarrow> tasks s' w \<noteq> None"
    and "\<And>j w. awaits s' j w \<Longrightarrow> (j = i \<and> w = r) \<or> (j \<noteq> i \<and> awaits s j w)"
  shows "awaitInv s'"
  unfolding awaitInv_def
proof (intro conjI allI impI)
  fix j w assume "awaits s' j w"
  with assms(5) have "(j = i \<and> w = r) \<or> awaits s j w" by blast
  with assms(1,3,4) show "tasks s' w \<noteq> None" unfolding awaitInv_def by blast
next
  fix j k w assume a: "awaits s' j w \<and> awaits s' k w"
  then have j: "(j = i \<and> w = r) \<or> (j \<noteq> i \<and> awaits s j w)"
    and k: "(k = i \<and> w = r) \<or> (k \<noteq> i \<and> awaits s k w)"
    using assms(5) by blast+
  have nr: "\<not> awaits s m r" for m
    using assms(1,2) unfolding awaitInv_def by blast
  from j k nr assms(1) show "j = k" unfolding awaitInv_def by blast
qed

lemma awaitInv_step:
  assumes inv: "awaitInv s" and st: "step e s = Some s'"
  shows "awaitInv s'"
proof (cases "pipelineEvent e")
  case True
  then have "ops s' = ops s" using st by (rule pipeline_ops)
  then have "awaits s' = awaits s" by (simp add: awaits_def fun_eq_iff)
  with inv step_tasks_mono [OF st] show ?thesis
    by (auto intro: awaitInv_shrink)
next
  case False
  note mono = step_tasks_mono [OF st]
  show ?thesis
  proof (cases e)
    case (Mount i)
    with st have "awaits s' j w \<Longrightarrow> awaits s j w" for j w
      by (auto simp: mount_def awaits_setOp split: option.splits if_splits)
    with inv mono show ?thesis by (auto intro: awaitInv_shrink)
  next
    case (StartupReadDone i ok r)
    with st have "(\<forall>j w. awaits s' j w \<longrightarrow> awaits s j w) \<or>
        (tasks s r = None \<and> tasks s' r \<noteq> None \<and>
         (\<forall>j w. awaits s' j w \<longrightarrow> (j = i \<and> w = r) \<or> (j \<noteq> i \<and> awaits s j w)))"
      by (auto simp: onStartupRead_def awaits_setOp tasks_upd awaits_Some
          split: option.splits opphase.splits if_splits dest!: newRequest_tasks)
    then show ?thesis
    proof
      assume "\<forall>j w. awaits s' j w \<longrightarrow> awaits s j w"
      with inv mono show ?thesis by (auto intro: awaitInv_shrink)
    next
      assume h: "tasks s r = None \<and> tasks s' r \<noteq> None \<and>
         (\<forall>j w. awaits s' j w \<longrightarrow> (j = i \<and> w = r) \<or> (j \<noteq> i \<and> awaits s j w))"
      show ?thesis
      proof (rule awaitInv_gain [OF inv, where i = i and r = r])
        show "tasks s r = None" using h by simp
        show "tasks s' r \<noteq> None" using h by simp
        show "\<And>w. tasks s w \<noteq> None \<Longrightarrow> tasks s' w \<noteq> None" by (rule mono)
        show "\<And>j w. awaits s' j w \<Longrightarrow> (j = i \<and> w = r) \<or> (j \<noteq> i \<and> awaits s j w)"
          using h by blast
      qed
    qed
  next
    case (Call i k r)
    with st have "(\<forall>j w. awaits s' j w \<longrightarrow> awaits s j w) \<or>
        (tasks s r = None \<and> tasks s' r \<noteq> None \<and>
         (\<forall>j w. awaits s' j w \<longrightarrow> (j = i \<and> w = r) \<or> (j \<noteq> i \<and> awaits s j w)))"
      by (auto simp: callAuth_def awaits_setOp tasks_upd clearAccessToken_def awaits_None
          split: option.splits opkind.splits if_splits dest!: newRequest_tasks)
    then show ?thesis
    proof
      assume "\<forall>j w. awaits s' j w \<longrightarrow> awaits s j w"
      with inv mono show ?thesis by (auto intro: awaitInv_shrink)
    next
      assume h: "tasks s r = None \<and> tasks s' r \<noteq> None \<and>
         (\<forall>j w. awaits s' j w \<longrightarrow> (j = i \<and> w = r) \<or> (j \<noteq> i \<and> awaits s j w))"
      show ?thesis
      proof (rule awaitInv_gain [OF inv, where i = i and r = r])
        show "tasks s r = None" using h by simp
        show "tasks s' r \<noteq> None" using h by simp
        show "\<And>w. tasks s w \<noteq> None \<Longrightarrow> tasks s' w \<noteq> None" by (rule mono)
        show "\<And>j w. awaits s' j w \<Longrightarrow> (j = i \<and> w = r) \<or> (j \<noteq> i \<and> awaits s j w)"
          using h by blast
      qed
    qed
  next
    case (Resume i)
    with st have "awaits s' j w \<Longrightarrow> awaits s j w" for j w
      by (auto simp: onOpResume_def opThrow_def awaits_setOp setAccessToken_def
          clearAccessToken_def awaits_Some
          split: option.splits opphase.splits phase.splits result.splits body.splits if_splits)
    with inv mono show ?thesis by (auto intro: awaitInv_shrink)
  next
    case (Saved i ok)
    with st have "awaits s' j w \<Longrightarrow> awaits s j w" for j w
      by (auto simp: onOpSaved_def opThrow_def awaits_setOp setRefreshToken_def
          clearAccessToken_def awaits_Some split: option.splits opphase.splits if_splits)
    with inv mono show ?thesis by (auto intro: awaitInv_shrink)
  next
    case (Cleared i ok)
    with st have "awaits s' j w \<Longrightarrow> awaits s j w" for j w
      by (auto simp: onOpCleared_def awaits_setOp clearRefreshToken_def awaits_Some
          split: option.splits opphase.splits if_splits)
    with inv mono show ?thesis by (auto intro: awaitInv_shrink)
  qed (use False in simp_all)
qed

lemma slotTok_cong:
  assumes "taskTok s' = taskTok s" and "opTok s' = opTok s"
  shows "slotTok s' = slotTok s"
proof
  fix x show "slotTok s' x = slotTok s x" using assms by (cases x) simp_all
qed

lemma slotTok_updates [simp]:
  "slotTok (s\<lparr>isRefreshing := b\<rparr>) = slotTok s"
  "slotTok (s\<lparr>failedQueue := q\<rparr>) = slotTok s"
  "slotTok (s\<lparr>accessToken := v\<rparr>) = slotTok s"
  "slotTok (s\<lparr>secureStore := v\<rparr>) = slotTok s"
  "slotTok (s\<lparr>isAuthenticated := b\<rparr>) = slotTok s"
  "slotTok (s\<lparr>isLoading := b\<rparr>) = slotTok s"
  "slotTok (s\<lparr>refreshCalls := l\<rparr>) = slotTok s"
  "slotTok (s\<lparr>rotated := l\<rparr>) = slotTok s"
  by (rule slotTok_cong; simp)+

lemma tokInv_updates [simp]:
  "tokInv K (s\<lparr>isRefreshing := b\<rparr>) = tokInv K s"
  "tokInv K (s\<lparr>failedQueue := q\<rparr>) = tokInv K s"
  "tokInv K (s\<lparr>accessToken := v\<rparr>) = tokInv K s"
  "tokInv K (s\<lparr>isAuthenticated := b\<rparr>) = tokInv K s"
  "tokInv K (s\<lparr>isLoading := b\<rparr>) = tokInv K s"
  "tokInv K (s\<lparr>refreshCalls := l\<rparr>) = tokInv K s"
  by (simp_all add: tokInv_def)

lemma tokInv_mono:
  assumes "tokInv K s" and "K \<subseteq> K'"
  shows "tokInv K' s"
  using assms by (rule tokInv_shrink) simp_all

lemma tokInv_store_clear:
  assumes "tokInv K s"
  shows "tokInv K (s\<lparr>secureStore := None\<rparr>)"
  using assms subset_refl by (rule tokInv_shrink) simp_all

lemma opTok_awaits: "awaits s i r \<Longrightarrow> opTok s i = bodyTok (tasks s r)"
  by (auto simp: awaits_def opTok_def)

lemma tokInv_upd_quiet:
  assumes inv: "tokInv K s"
    and ph: "phTask (phase t) = None" "phHolder (phase t) = None" "phBody (phase t) = None"
  shows "tokInv K (upd r t s)"
proof (rule tokInv_shrink [OF inv])
  show "K \<subseteq> K" by simp
  show "rotated (upd r t s) = rotated s" by simp
  show "secureStore (upd r t s) = secureStore s \<or> secureStore (upd r t s) = None" by simp
  show "holderTok (upd r t s) w = holderTok s w \<or> holderTok (upd r t s) w = None" for w
    using ph by (simp add: holderTok_upd)
  show "slotTok (upd r t s) x = slotTok s x \<or> slotTok (upd r t s) x = None" for x
    using ph by (cases x) (simp_all add: taskTok_upd opTok_upd)
qed

lemma tokInv_setOp_quiet:
  assumes inv: "tokInv K s"
    and ph: "opPhaseTok (tasks s) (ophase p) = None \<or> opPhaseTok (tasks s) (ophase p) = opTok s i"
  shows "tokInv K (setOp i p s)"
proof (rule tokInv_shrink [OF inv])
  show "K \<subseteq> K" by simp
  show "rotated (setOp i p s) = rotated s" by simp
  show "secureStore (setOp i p s) = secureStore s \<or> secureStore (setOp i p s) = None" by simp
  show "holderTok (setOp i p s) w = holderTok s w \<or> holderTok (setOp i p s) w = None" for w
    by simp
  show "slotTok (setOp i p s) x = slotTok s x \<or> slotTok (setOp i p s) x = None" for x
    using ph by (cases x) (auto simp: opTok_setOp)
qed

lemma tokInv_catchRefresh:
  assumes inv: "tokInv K s"
  shows "tokInv K (catchRefresh r t e s)"
proof (rule tokInv_shrink [OF inv])
  show "K \<subseteq> K" by simp
  show "rotated (catchRefresh r t e s) = rotated s" by (simp add: catchRefresh_fields)
  show "secureStore (catchRefresh r t e s) = secureStore s \<or>
        secureStore (catchRefresh r t e s) = None" by (simp add: catchRefresh_fields)
  show "holderTok (catchRefresh r t e s) w = holderTok s w \<or>
        holderTok (catchRefresh r t e s) w = None" for w
    by (rule catchRefresh_abs)
  show "slotTok (catchRefresh r t e s) x = slotTok s x \<or>
        slotTok (catchRefresh r t e s) x = None" for x
    by (rule slot_cases) (rule catchRefresh_abs)+
qed

lemma tokInv_newRequest:
  assumes "tokInv K s" and "newRequest r ep s = Some s'"
  shows "tokInv K s'"
proof -
  from newRequest_tasks [OF assms(2)] obtain t where "phase t = InFlight" "s' = upd r t s"
    by blast
  with assms(1) show ?thesis by (simp add: tokInv_upd_quiet)
qed

text \<open>A response settles a request: a token in its body reaches the operation that awaits
  the request, if there is one.\<close>

lemma tokInv_settle:
  assumes inv: "tokInv K s" and aw: "awaitInv s"
    and t: "tasks s r = Some t" "phase t = InFlight"
    and ph: "phTask ph = None" "phHolder ph = None"
    and fresh: "\<And>n. phBody ph = Some n \<Longrightarrow> n \<notin> K"
  shows "tokInv (K \<union> set_option (phBody ph)) (upd r (t\<lparr>phase := ph\<rparr>) s)"
proof (cases "phBody ph")
  case None
  with ph inv show ?thesis by (simp add: tokInv_upd_quiet)
next
  case (Some n)
  let ?s' = "upd r (t\<lparr>phase := ph\<rparr>) s"
  have old: "holderTok s r = None" "taskTok s r = None"
    using t by (simp_all add: holderTok_def taskTok_def)
  have hol: "holderTok ?s' w = holderTok s w" for w
    using old ph by (simp add: holderTok_upd)
  have tsk: "taskTok ?s' w = taskTok s w" for w
    using old ph by (simp add: taskTok_upd)
  show ?thesis
  proof (cases "\<exists>i. awaits s i r")
    case True
    then obtain i where i: "awaits s i r" by blast
    have others: "opTok ?s' j = opTok s j" if "j \<noteq> i" for j
    proof -
      from that i aw have "\<not> awaits s j r" unfolding awaitInv_def by blast
      then show ?thesis by (simp add: opTok_upd)
    qed
    have "tokInv (insert n K) ?s'"
    proof (rule tokInv_slot_gain [OF inv, where x = "OpSlot i"])
      show "n \<notin> K" using fresh Some by simp
      show "rotated ?s' = rotated s" by simp
      show "secureStore ?s' = secureStore s" by simp
      show "holderTok ?s' w = holderTok s w" for w by (rule hol)
      show "slotTok ?s' y = slotTok s y \<or> slotTok ?s' y = None" if "y \<noteq> OpSlot i" for y
        using that by (cases y) (simp_all add: tsk others)
      show "slotTok ?s' (OpSlot i) = Some n"
        using i Some by (simp add: opTok_upd)
    qed
    with Some show ?thesis by simp
  next
    case False
    then have "opTok ?s' j = opTok s j" for j by (simp add: opTok_upd)
    then have slo: "slotTok ?s' x = slotTok s x" for x
      using tsk by (cases x) simp_all
    have "tokInv K ?s'"
      using inv subset_refl by (rule tokInv_shrink) (simp_all add: hol slo)
    then show ?thesis by (rule tokInv_mono) simp
  qed
qed

lemma delivered_Respond:
  "set (delivered (Respond r out)) =
     (case out of Ok b \<Rightarrow> set_option (phBody (Settled (Resolved b))) | Fail f \<Rightarrow> {})"
proof (cases out)
  case (Ok b)
  then show ?thesis
  proof (cases b)
    case NoBody
    with Ok show ?thesis by simp
  next
    case (Json a n ty)
    with Ok show ?thesis by (cases n) simp_all
  qed
next
  case (Fail f)
  then show ?thesis by simp
qed

lemma delivered_RenewalDone:
  "set (delivered (RenewalDone r out)) =
     (case out of Ok NoBody \<Rightarrow> {} | Ok (Json a n ty) \<Rightarrow> set_option n | Fail f \<Rightarrow> {})"
proof (cases out)
  case (Ok b)
  then show ?thesis
  proof (cases b)
    case NoBody
    with Ok show ?thesis by simp
  next
    case (Json a n ty)
    with Ok show ?thesis by (cases n) simp_all
  qed
next
  case (Fail f)
  then show ?thesis by simp
qed

lemma tokInv_Respond:
  assumes inv: "tokInv K s" and aw: "awaitInv s" and st: "onResponse r out s = Some s'"
    and fresh: "set (delivered (Respond r out)) \<inter> K = {}"
  shows "tokInv (K \<union> set (delivered (Respond r out))) s'"
proof -
  from st obtain t where t: "tasks s r = Some t" "phase t = InFlight"
    by (auto simp: onResponse_def split: option.splits phase.splits)
  from st t obtain ph where S: "s' = upd r (t\<lparr>phase := ph\<rparr>) s"
    and P: "phTask ph = None" "phHolder ph = None"
    and D: "set (delivered (Respond r out)) = set_option (phBody ph)"
    by (cases out) (auto simp: onResponse_def delivered_Respond split: if_splits)
  have "\<And>n. phBody ph = Some n \<Longrightarrow> n \<notin> K"
    using fresh D by auto
  from tokInv_settle [OF inv aw t P this] show ?thesis
    by (simp add: S D)
qed

lemma tokInv_ReadDone:
  assumes inv: "tokInv K s" and st: "onRefreshTokenRead r ok s = Some s'"
  shows "tokInv K s'"
proof -
  from st obtain t x where t: "tasks s r = Some t" "phase t = ReadingRenewal x"
    by (auto simp: onRefreshTokenRead_def split: option.splits phase.splits)
  from st t have
    "s' = upd r (t\<lparr>phase := Settled (Rejected x)\<rparr>) s \<or>
     s' = upd r (t\<lparr>phase := Queued\<rparr>) (s\<lparr>failedQueue := failedQueue s @ [r]\<rparr>) \<or>
     (\<exists>tok. secureStore s = Some tok \<and>
        s' = upd r (t\<lparr>retry := True, phase := Renewing tok\<rparr>)
               (s\<lparr>isRefreshing := True, refreshCalls := refreshCalls s @ [tok]\<rparr>))"
    by (auto simp: onRefreshTokenRead_def getRefreshToken_def split: option.splits if_splits)
  then show ?thesis
  proof (elim disjE exE conjE)
    assume "s' = upd r (t\<lparr>phase := Settled (Rejected x)\<rparr>) s"
    with inv show ?thesis by (simp add: tokInv_upd_quiet)
  next
    assume "s' = upd r (t\<lparr>phase := Queued\<rparr>) (s\<lparr>failedQueue := failedQueue s @ [r]\<rparr>)"
    with inv show ?thesis by (simp add: tokInv_upd_quiet)
  next
    fix tok
    assume sto: "secureStore s = Some tok"
      and S: "s' = upd r (t\<lparr>retry := True, phase := Renewing tok\<rparr>)
               (s\<lparr>isRefreshing := True, refreshCalls := refreshCalls s @ [tok]\<rparr>)"
    show ?thesis
    proof (rule tokInv_holder_gain [OF inv, where h = r])
      show "rotated s' = rotated s" by (simp add: S)
      show "secureStore s' = secureStore s" by (simp add: S)
      show "holderTok s' w = holderTok s w \<or> holderTok s' w = None" if "w \<noteq> r" for w
        using that by (simp add: S holderTok_upd)
      show "holderTok s' r = secureStore s" by (simp add: S holderTok_upd sto)
      show "slotTok s' y = slotTok s y \<or> slotTok s' y = None" for y
        by (cases y) (simp_all add: S taskTok_upd opTok_upd)
    qed
  qed
qed

lemma tokInv_RenewalDone:
  assumes inv: "tokInv K s" and st: "onRenewalResponse r out s = Some s'"
    and fresh: "set (delivered (RenewalDone r out)) \<inter> K = {}"
  shows "tokInv (K \<union> set (delivered (RenewalDone r out))) s'"
proof -
  from st obtain t tok where t: "tasks s r = Some t" "phase t = Renewing tok"
    by (auto simp: onRenewalResponse_def split: option.splits phase.splits)
  from st t have
    "((\<exists>x. s' = catchRefresh r t x s) \<and> set (delivered (RenewalDone r out)) = {}) \<or>
     (\<exists>a n. s' = upd r (t\<lparr>phase := Persisting tok a n\<rparr>) (s\<lparr>accessToken := a\<rparr>) \<and>
        set (delivered (RenewalDone r out)) = set_option n)"
    by (auto simp: onRenewalResponse_def delivered_RenewalDone setAccessToken_def
        split: outcome.splits body.splits)
  then show ?thesis
  proof (elim disjE exE conjE)
    fix x assume "s' = catchRefresh r t x s" "set (delivered (RenewalDone r out)) = {}"
    with inv show ?thesis by (simp add: tokInv_catchRefresh)
  next
    fix a n
    assume S: "s' = upd r (t\<lparr>phase := Persisting tok a n\<rparr>) (s\<lparr>accessToken := a\<rparr>)"
      and D: "set (delivered (RenewalDone r out)) = set_option n"
    have old: "holderTok s r = Some tok" "taskTok s r = None"
      using t by (simp_all add: holderTok_def taskTok_def)
    have hol: "holderTok s' w = holderTok s w" for w
      using old by (simp add: S holderTok_upd)
    have slo: "slotTok s' y = slotTok s y \<or> slotTok s' y = None" if "y \<noteq> TaskSlot r" for y
      using that by (cases y) (simp_all add: S taskTok_upd opTok_upd)
    show ?thesis
    proof (cases n)
      case None
      then have "slotTok s' (TaskSlot r) = None" by (simp add: S taskTok_upd)
      with slo have all: "slotTok s' y = slotTok s y \<or> slotTok s' y = None" for y
        by (cases "y = TaskSlot r") auto
      have "tokInv K s'"
        using inv subset_refl
      proof (rule tokInv_shrink)
        show "rotated s' = rotated s" by (simp add: S)
        show "secureStore s' = secureStore s \<or> secureStore s' = None" by (simp add: S)
        show "holderTok s' w = holderTok s w \<or> holderTok s' w = None" for w
          by (simp add: hol)
        show "slotTok s' y = slotTok s y \<or> slotTok s' y = None" for y by (rule all)
      qed
      with None D show ?thesis by simp
    next
      case (Some v)
      have "tokInv (insert v K) s'"
      proof (rule tokInv_slot_gain [OF inv, where x = "TaskSlot r"])
        show "v \<notin> K" using fresh D Some by simp
        show "rotated s' = rotated s" by (simp add: S)
        show "secureStore s' = secureStore s" by (simp add: S)
        show "holderTok s' w = holderTok s w" for w by (rule hol)
        show "slotTok s' y = slotTok s y \<or> slotTok s' y = None" if "y \<noteq> TaskSlot r" for y
          using that by (rule slo)
        show "slotTok s' (TaskSlot r) = Some v" by (simp add: S taskTok_upd Some)
      qed
      with Some D show ?thesis by simp
    qed
  qed
qed

lemma tokInv_PersistDone:
  assumes inv: "tokInv K s" and st: "onRefreshTokenWritten r ok s = Some s'"
  shows "tokInv K s'"
proof -
  from st obtain t tok a n where t: "tasks s r = Some t" "phase t = Persisting tok a n"
    by (auto simp: onRefreshTokenWritten_def split: option.splits phase.splits)
  show ?thesis
  proof (cases ok)
    case False
    with st t have "s' = catchRefresh r t StoreFailed s"
      by (simp add: onRefreshTokenWritten_def)
    with inv show ?thesis by (simp add: tokInv_catchRefresh)
  next
    case True
    with st t have S: "s' = commitRenewal r t tok a n s"
      by (simp add: onRefreshTokenWritten_def)
    have old: "holderTok s r = Some tok" "taskTok s r = n"
      using t by (simp_all add: holderTok_def taskTok_def)
    show ?thesis
    proof (rule tokInv_store_from_slot [OF inv, where x = "TaskSlot r" and spent = "[tok]"])
      show "rotated s' = rotated s @ [tok]" by (simp add: S commitRenewal_fields)
      show "\<exists>w. holderTok s w = Some v" if "v \<in> set [tok]" for v
        using that old by auto
      show "secureStore s' = slotTok s (TaskSlot r) \<or> secureStore s' = None"
        by (simp add: S commitRenewal_fields old)
      show "holderTok s' w = holderTok s w \<or> holderTok s' w = None" for w
        unfolding S by (rule commitRenewal_abs)
      show "slotTok s' y = slotTok s y \<or> slotTok s' y = None" if "y \<noteq> TaskSlot r" for y
        unfolding S by (rule slot_cases) (rule commitRenewal_abs)+
      show "slotTok s' (TaskSlot r) = None" by (simp add: S commitRenewal_abs)
    qed
  qed
qed

lemma tokInv_ClearDone:
  assumes inv: "tokInv K s" and st: "onRefreshTokenCleared r ok s = Some s'"
  shows "tokInv K s'"
proof -
  from st obtain t x where t: "tasks s r = Some t" "phase t = Clearing x"
    and S: "s' = (upd r (t\<lparr>phase := Settled (Rejected x)\<rparr>) (clearRefreshToken ok s))
                   \<lparr>isRefreshing := False\<rparr>"
    by (auto simp: onRefreshTokenCleared_def split: option.splits phase.splits)
  have "tokInv K (clearRefreshToken ok s)"
    using inv by (simp add: clearRefreshToken_def tokInv_store_clear)
  then show ?thesis by (simp add: S tokInv_upd_quiet)
qed

lemma tokInv_opThrow:
  assumes "tokInv K s"
  shows "tokInv K (opThrow i p s)"
  using assms by (simp add: opThrow_def clearAccessToken_def tokInv_setOp_quiet)

lemma tokInv_Mount:
  assumes inv: "tokInv K s" and st: "mount i s = Some s'"
  shows "tokInv K s'"
  using assms by (auto simp: mount_def split: option.splits intro!: tokInv_setOp_quiet)

lemma tokInv_awaiting_new:
  assumes inv: "tokInv K s" and nr: "newRequest r ep s = Some s1"
  shows "tokInv K (setOp i (p\<lparr>ophase := Awaiting r\<rparr>) s1)"
proof -
  from newRequest_tasks [OF nr] obtain t where t: "phase t = InFlight" "s1 = upd r t s"
    by blast
  have "tokInv K s1" using inv nr by (rule tokInv_newRequest)
  moreover have "opPhaseTok (tasks s1) (Awaiting r) = None"
    using t by (simp add: tasks_upd)
  ultimately show ?thesis by (simp add: tokInv_setOp_quiet)
qed

lemma tokInv_StartupReadDone:
  assumes inv: "tokInv K s" and st: "onStartupRead i ok r s = Some s'"
  shows "tokInv K s'"
proof -
  from st obtain p where p: "ops s i = Some p" "ophase p = StartupReading"
    by (auto simp: onStartupRead_def split: option.splits opphase.splits)
  from st p have
    "(\<exists>ep s1. newRequest r ep s = Some s1 \<and> s' = setOp i (p\<lparr>ophase := Awaiting r\<rparr>) s1) \<or>
     s' = setOp i (p\<lparr>ophase := Finished\<rparr>) (s\<lparr>isLoading := False\<rparr>)"
    by (auto simp: onStartupRead_def split: option.splits if_splits)
  then show ?thesis
  proof (elim disjE exE conjE)
    fix ep s1
    assume "newRequest r ep s = Some s1" "s' = setOp i (p\<lparr>ophase := Awaiting r\<rparr>) s1"
    with inv show ?thesis by (simp add: tokInv_awaiting_new)
  next
    assume "s' = setOp i (p\<lparr>ophase := Finished\<rparr>) (s\<lparr>isLoading := False\<rparr>)"
    with inv show ?thesis by (simp add: tokInv_setOp_quiet)
  qed
qed

lemma tokInv_Call:
  assumes inv: "tokInv K s" and st: "callAuth i k r s = Some s'"
  shows "tokInv K s'"
proof -
  from st have
    "(\<exists>ep s1 p. newRequest r ep s = Some s1 \<and> s' = setOp i (p\<lparr>ophase := Awaiting r\<rparr>) s1) \<or>
     s' = setOp i \<lparr>kind = Logout, ophase = Wiping\<rparr> (s\<lparr>accessToken := None\<rparr>)"
  proof (cases k)
    case Login
    with st obtain s1 where "newRequest r LoginEp s = Some s1"
      "s' = setOp i \<lparr>kind = Login, ophase = Awaiting r\<rparr> s1"
      by (auto simp: callAuth_def split: option.splits)
    then have "newRequest r LoginEp s = Some s1 \<and>
       s' = setOp i (\<lparr>kind = Login, ophase = Awaiting r\<rparr>\<lparr>ophase := Awaiting r\<rparr>) s1"
      by simp
    then show ?thesis by blast
  next
    case Register
    with st obtain s1 where "newRequest r RegisterEp s = Some s1"
      "s' = setOp i \<lparr>kind = Register, ophase = Awaiting r\<rparr> s1"
      by (auto simp: callAuth_def split: option.splits)
    then have "newRequest r RegisterEp s = Some s1 \<and>
       s' = setOp i (\<lparr>kind = Register, ophase = Awaiting r\<rparr>\<lparr>ophase := Awaiting r\<rparr>) s1"
      by simp
    then show ?thesis by blast
  next
    case Startup
    with st show ?thesis by (auto simp: callAuth_def split: option.splits)
  next
    case Logout
    with st show ?thesis
      by (auto simp: callAuth_def clearAccessToken_def split: option.splits)
  qed
  then show ?thesis
  proof (elim disjE exE conjE)
    fix ep s1 p
    assume "newRequest r ep s = Some s1" "s' = setOp i (p\<lparr>ophase := Awaiting r\<rparr>) s1"
    with inv show ?thesis by (simp add: tokInv_awaiting_new)
  next
    assume "s' = setOp i \<lparr>kind = Logout, ophase = Wiping\<rparr> (s\<lparr>accessToken := None\<rparr>)"
    with inv show ?thesis by (simp add: tokInv_setOp_quiet)
  qed
qed

lemma tokInv_Resume:
  assumes inv: "tokInv K s" and st: "onOpResume i s = Some s'"
  shows "tokInv K s'"
proof -
  from st obtain p r t res where p: "ops s i = Some p" "ophase p = Awaiting r"
    and t: "tasks s r = Some t" "phase t = Settled res"
    by (auto simp: onOpResume_def split: option.splits opphase.splits phase.splits)
  from st p t have
    "(\<exists>a n ty. res = Resolved (Json (Some a) (Some n) (Some ty)) \<and>
        s' = setOp i (p\<lparr>ophase := Saving n\<rparr>) (s\<lparr>accessToken := Some a\<rparr>)) \<or>
     s' = opThrow i p s"
    by (auto simp: onOpResume_def setAccessToken_def
        split: result.splits body.splits option.splits)
  then show ?thesis
  proof (elim disjE exE conjE)
    fix a n ty
    assume res: "res = Resolved (Json (Some a) (Some n) (Some ty))"
      and S: "s' = setOp i (p\<lparr>ophase := Saving n\<rparr>) (s\<lparr>accessToken := Some a\<rparr>)"
    have "opTok s i = Some n"
      using p t res by (simp add: opTok_def)
    then have "opTok (s\<lparr>accessToken := Some a\<rparr>) i = Some n" by simp
    with inv show ?thesis by (simp add: S tokInv_setOp_quiet)
  next
    assume "s' = opThrow i p s"
    with inv show ?thesis by (simp add: tokInv_opThrow)
  qed
qed

lemma tokInv_Saved:
  assumes inv: "tokInv K s" and st: "onOpSaved i ok s = Some s'"
  shows "tokInv K s'"
proof -
  from st obtain p n where p: "ops s i = Some p" "ophase p = Saving n"
    by (auto simp: onOpSaved_def split: option.splits opphase.splits)
  show ?thesis
  proof (cases ok)
    case False
    with st p have "s' = opThrow i p s" by (simp add: onOpSaved_def)
    with inv show ?thesis by (simp add: tokInv_opThrow)
  next
    case True
    with st p obtain b l where S: "s' = setOp i (p\<lparr>ophase := Finished\<rparr>)
        (s\<lparr>secureStore := Some n, isAuthenticated := b, isLoading := l\<rparr>)"
      by (auto simp: onOpSaved_def setRefreshToken_def)
    have old: "opTok s i = Some n" using p by (simp add: opTok_def)
    show ?thesis
    proof (rule tokInv_store_from_slot [OF inv, where x = "OpSlot i" and spent = "[]"])
      show "rotated s' = rotated s @ []" by (simp add: S)
      show "\<exists>w. holderTok s w = Some v" if "v \<in> set []" for v using that by simp
      show "secureStore s' = slotTok s (OpSlot i) \<or> secureStore s' = None"
        by (simp add: S old)
      show "holderTok s' w = holderTok s w \<or> holderTok s' w = None" for w
        by (simp add: S)
      show "slotTok s' y = slotTok s y \<or> slotTok s' y = None" if "y \<noteq> OpSlot i" for y
        using that by (cases y) (simp_all add: S opTok_setOp)
      show "slotTok s' (OpSlot i) = None" by (simp add: S opTok_setOp)
    qed
  qed
qed

lemma tokInv_Cleared:
  assumes inv: "tokInv K s" and st: "onOpCleared i ok s = Some s'"
  shows "tokInv K s'"
proof -
  from st obtain p b l where p: "ops s i = Some p" "ophase p = Wiping"
    and S: "s' = setOp i (p\<lparr>ophase := Finished\<rparr>)
              ((clearRefreshToken ok s)\<lparr>isAuthenticated := b, isLoading := l\<rparr>)"
    by (auto simp: onOpCleared_def split: option.splits opphase.splits)
  have "tokInv K (clearRefreshToken ok s)"
    using inv by (simp add: clearRefreshToken_def tokInv_store_clear)
  then show ?thesis by (simp add: S tokInv_setOp_quiet)
qed

lemma tokInv_step:
  assumes inv: "tokInv K s" and aw: "awaitInv s" and st: "step e s = Some s'"
    and fresh: "set (delivered e) \<inter> K = {}"
  shows "tokInv (K \<union> set (delivered e)) s'"
proof (cases e)
  case (Execute r)
  with inv st show ?thesis by (simp add: tokInv_newRequest)
next
  case (Respond r out)
  with inv aw st fresh show ?thesis by (simp add: tokInv_Respond del: delivered.simps)
next
  case (ReadDone r ok)
  with inv st show ?thesis by (simp add: tokInv_ReadDone)
next
  case (RenewalDone r out)
  with inv st fresh show ?thesis by (simp add: tokInv_RenewalDone del: delivered.simps)
next
  case (PersistDone r ok)
  with inv st show ?thesis by (simp add: tokInv_PersistDone)
next
  case (ClearDone r ok)
  with inv st show ?thesis by (simp add: tokInv_ClearDone)
next
  case (Mount i)
  with inv st show ?thesis by (simp add: tokInv_Mount)
next
  case (StartupReadDone i ok r)
  with inv st show ?thesis by (simp add: tokInv_StartupReadDone)
next
  case (Call i k r)
  with inv st show ?thesis by (simp add: tokInv_Call)
next
  case (Resume i)
  with inv st show ?thesis by (simp add: tokInv_Resume)
next
  case (Saved i ok)
  with inv st show ?thesis by (simp add: tokInv_Saved)
next
  case (Cleared i ok)
  with inv st show ?thesis by (simp add: tokInv_Cleared)
qed

lemma run_snoc:
  "run (es @ [e]) s = (case run es s of None \<Rightarrow> None | Some s1 \<Rightarrow> step e s1)"
  by (induction es arbitrary: s) (auto split: option.splits)

lemma issued_snoc: "issued p (es @ [e]) = issued p es @ delivered e"
  by (simp add: issued_def)

lemma boot_tokInv: "tokInv (set (issued p [])) (boot p) \<and> awaitInv (boot p)"
proof
  have "slotTok (boot p) x = None" for x
    by (cases x) (simp_all add: taskTok_def opTok_def boot_def)
  then show "tokInv (set (issued p [])) (boot p)"
    by (intro tokInvI) (auto simp: issued_def boot_def holderTok_def split: option.splits)
  show "awaitInv (boot p)"
    by (simp add: awaitInv_def awaits_def boot_def)
qed

lemma reachable_tokInv:
  assumes "run es (boot p) = Some s" and "distinct (issued p es)"
  shows "tokInv (set (issued p es)) s \<and> awaitInv s"
  using assms
proof (induction es arbitrary: s rule: rev_induct)
  case Nil
  then show ?case using boot_tokInv [of p] by simp
next
  case (snoc e es)
  from snoc.prems(1) obtain s1 where r: "run es (boot p) = Some s1" and st: "step e s1 = Some s"
    by (auto simp: run_snoc split: option.splits)
  from snoc.prems(2) have d: "distinct (issued p es)"
    and f: "set (delivered e) \<inter> set (issued p es) = {}"
    by (auto simp: issued_snoc)
  from snoc.IH [OF r d] have inv: "tokInv (set (issued p es)) s1" and aw: "awaitInv s1"
    by simp_all
  from tokInv_step [OF inv aw st f] awaitInv_step [OF aw st]
  show ?case by (simp add: issued_snoc)
qed

lemma refreshCalls_step:
  assumes "step e s = Some s'"
  shows "refreshCalls s' = refreshCalls s \<or>
     (\<exists>r ok tok. e = ReadDone r ok \<and> secureStore s = Some tok \<and>
        refreshCalls s' = refreshCalls s @ [tok])"
proof (cases e)
  case (Execute r)
  with assms show ?thesis by (auto dest!: newRequest_tasks)
next
  case (Respond r out)
  with assms show ?thesis
    by (auto simp: onResponse_def split: option.splits phase.splits outcome.splits if_splits)
next
  case (ReadDone r ok)
  with assms show ?thesis
    by (auto simp: onRefreshTokenRead_def getRefreshToken_def
        split: option.splits phase.splits if_splits)
next
  case (RenewalDone r out)
  with assms show ?thesis
    by (auto simp: onRenewalResponse_def catchRefresh_fields setAccessToken_def
        split: option.splits phase.splits outcome.splits body.splits)
next
  case (PersistDone r ok)
  with assms show ?thesis
    by (auto simp: onRefreshTokenWritten_def catchRefresh_fields commitRenewal_fields
        split: option.splits phase.splits if_splits)
next
  case (ClearDone r ok)
  with assms show ?thesis
    by (auto simp: onRefreshTokenCleared_def clearRefreshToken_def
        split: option.splits phase.splits if_splits)
next
  case (Mount i)
  with assms show ?thesis by (auto simp: mount_def split: option.splits)
next
  case (StartupReadDone i ok r)
  with assms show ?thesis
    by (auto simp: onStartupRead_def split: option.splits opphase.splits if_splits
        dest!: newRequest_tasks)
next
  case (Call i k r)
  with assms show ?thesis
    by (auto simp: callAuth_def clearAccessToken_def split: option.splits opkind.splits
        dest!: newRequest_tasks)
next
  case (Resume i)
  with assms show ?thesis
    by (auto simp: onOpResume_def opThrow_def setAccessToken_def clearAccessToken_def
        split: option.splits opphase.splits phase.splits result.splits body.splits if_splits)
next
  case (Saved i ok)
  with assms show ?thesis
    by (auto simp: onOpSaved_def opThrow_def setRefreshToken_def clearAccessToken_def
        split: option.splits opphase.splits if_splits)
next
  case (Cleared i ok)
  with assms show ?thesis
    by (auto simp: onOpCleared_def clearRefreshToken_def
        split: option.splits opphase.splits if_splits)
qed

text \<open>
  Claim C4, as stated, has a renewal credential that a completed renewal cycle has submitted,
  and the server has rotated, never submitted by a later cycle. The first cycle below
  submits \<open>R1\<close> and receives the rotated \<open>R2\<close>; writing \<open>R2\<close> fails and so does the deletion
  in the \<^verbatim>\<open>catch\<close> block, whose failure \<^verbatim>\<open>clearRefreshToken\<close> swallows. The store still
  holds \<open>R1\<close>, and the next authorization failure submits \<open>R1\<close> a second time.
\<close>

theorem rotated_credential_submitted_again:
  "map_option refreshCalls
     (run [Execute 1, Respond 1 (Fail (Status 401)), ReadDone 1 True,
           RenewalDone 1 (Ok (Json (Some ''A2'') (Some ''R2'') (Some ''bearer''))),
           PersistDone 1 False, ClearDone 1 False,
           Execute 2, Respond 2 (Fail (Status 401)), ReadDone 2 True]
        (boot (Some ''R1''))) = Some [''R1'', ''R1'']
   \<and> map_option secureStore
     (run [Execute 1, Respond 1 (Fail (Status 401)), ReadDone 1 True,
           RenewalDone 1 (Ok (Json (Some ''A2'') (Some ''R2'') (Some ''bearer''))),
           PersistDone 1 False, ClearDone 1 False]
        (boot (Some ''R1''))) = Some (Some ''R1'')"
  by (simp add: pipeline_defs storage_defs boot_def Let_def)

text \<open>
  Claim C4, amended. Suppose the server never issues the same renewal credential twice, nor
  the one persisted at start. Then in every state an execution can reach: the store holds
  no credential that was submitted by a renewal whose rotated credential has been
  persisted; the only turn in which the response interceptor sends a renewal call is the
  completion of its read of the store, and the call submits the credential the store holds
  in that turn, which no such renewal has submitted before; and when the rotated credential
  of a renewal is written, the store holds it, it differs from the submitted one, and the
  submitted one is recorded as rotated.
\<close>

theorem rotated_credential_not_resubmitted:
  assumes "run es (boot p) = Some s" and "distinct (issued p es)"
  shows "(\<forall>v. secureStore s = Some v \<longrightarrow> v \<notin> set (rotated s))
     \<and> (\<forall>e s'. step e s = Some s' \<longrightarrow>
           refreshCalls s' = refreshCalls s \<or>
           (\<exists>r ok tok. e = ReadDone r ok \<and> secureStore s = Some tok \<and>
              tok \<notin> set (rotated s) \<and> refreshCalls s' = refreshCalls s @ [tok]))
     \<and> (\<forall>r t tok a n s'. tasks s r = Some t \<and> phase t = Persisting tok a n \<and>
           step (PersistDone r True) s = Some s' \<longrightarrow>
           secureStore s' = n \<and> rotated s' = rotated s @ [tok] \<and> n \<noteq> Some tok)"
proof -
  from reachable_tokInv [OF assms] have inv: "tokInv (set (issued p es)) s" by simp
  have 1: "\<forall>v. secureStore s = Some v \<longrightarrow> v \<notin> set (rotated s)"
    using tokInv_store [OF inv] by blast
  have 2: "\<forall>e s'. step e s = Some s' \<longrightarrow>
           refreshCalls s' = refreshCalls s \<or>
           (\<exists>r ok tok. e = ReadDone r ok \<and> secureStore s = Some tok \<and>
              tok \<notin> set (rotated s) \<and> refreshCalls s' = refreshCalls s @ [tok])"
    using refreshCalls_step 1 by blast
  have 3: "\<forall>r t tok a n s'. tasks s r = Some t \<and> phase t = Persisting tok a n \<and>
           step (PersistDone r True) s = Some s' \<longrightarrow>
           secureStore s' = n \<and> rotated s' = rotated s @ [tok] \<and> n \<noteq> Some tok"
  proof (intro allI impI)
    fix r t tok a n s'
    assume h: "tasks s r = Some t \<and> phase t = Persisting tok a n \<and>
           step (PersistDone r True) s = Some s'"
    then have S: "s' = commitRenewal r t tok a n s"
      by (auto simp: onRefreshTokenWritten_def)
    have "holderTok s r = Some tok" "slotTok s (TaskSlot r) = n"
      using h by (simp_all add: holderTok_def taskTok_def)
    then have "n \<noteq> Some tok"
      using tokInv_slot [OF inv, of "TaskSlot r" tok r] by auto
    then show "secureStore s' = n \<and> rotated s' = rotated s @ [tok] \<and> n \<noteq> Some tok"
      by (simp add: S commitRenewal_fields)
  qed
  from 1 2 3 show ?thesis by blast
qed

theorem rotated_credential_not_resubmitted_witness:
  "run [Execute 1, Respond 1 (Fail (Status 401)), ReadDone 1 True,
       RenewalDone 1 (Ok (Json (Some ''A2'') (Some ''R2'') (Some ''bearer''))),
       PersistDone 1 True, Execute 2, Respond 2 (Fail (Status 401))] (boot (Some ''R1'')) = Some
       (upd 2 \<lparr>target = DataEp, authorization = Some ''Bearer A2'', retry = False,
               phase = ReadingRenewal (RequestFailed (Status 401))\<rparr>
         (upd 1 \<lparr>target = DataEp, authorization = Some ''Bearer A2'', retry = True,
                 phase = InFlight\<rparr>
           ((boot (Some ''R2''))\<lparr>accessToken := Some ''A2'', refreshCalls := [''R1''],
              rotated := [''R1'']\<rparr>)))
   \<and> distinct (issued (Some ''R1'')
      [Execute 1, Respond 1 (Fail (Status 401)), ReadDone 1 True,
       RenewalDone 1 (Ok (Json (Some ''A2'') (Some ''R2'') (Some ''bearer''))),
       PersistDone 1 True, Execute 2, Respond 2 (Fail (Status 401))])
   \<and> secureStore
       (upd 2 \<lparr>target = DataEp, authorization = Some ''Bearer A2'', retry = False,
               phase = ReadingRenewal (RequestFailed (Status 401))\<rparr>
         (upd 1 \<lparr>target = DataEp, authorization = Some ''Bearer A2'', retry = True,
                 phase = InFlight\<rparr>
           ((boot (Some ''R2''))\<lparr>accessToken := Some ''A2'', refreshCalls := [''R1''],
              rotated := [''R1'']\<rparr>))) = Some ''R2''
   \<and> ''R2'' \<notin> set (rotated
       (upd 2 \<lparr>target = DataEp, authorization = Some ''Bearer A2'', retry = False,
               phase = ReadingRenewal (RequestFailed (Status 401))\<rparr>
         (upd 1 \<lparr>target = DataEp, authorization = Some ''Bearer A2'', retry = True,
                 phase = InFlight\<rparr>
           ((boot (Some ''R2''))\<lparr>accessToken := Some ''A2'', refreshCalls := [''R1''],
              rotated := [''R1'']\<rparr>))))
   \<and> (\<exists>s'. step (ReadDone 2 True)
       (upd 2 \<lparr>target = DataEp, authorization = Some ''Bearer A2'', retry = False,
               phase = ReadingRenewal (RequestFailed (Status 401))\<rparr>
         (upd 1 \<lparr>target = DataEp, authorization = Some ''Bearer A2'', retry = True,
                 phase = InFlight\<rparr>
           ((boot (Some ''R2''))\<lparr>accessToken := Some ''A2'', refreshCalls := [''R1''],
              rotated := [''R1'']\<rparr>))) = Some s' \<and> refreshCalls s' = [''R1'', ''R2''])"
proof -
  let ?S = "(upd 2 \<lparr>target = DataEp, authorization = Some ''Bearer A2'', retry = False,
               phase = ReadingRenewal (RequestFailed (Status 401))\<rparr>
         (upd 1 \<lparr>target = DataEp, authorization = Some ''Bearer A2'', retry = True,
                 phase = InFlight\<rparr>
           ((boot (Some ''R2''))\<lparr>accessToken := Some ''A2'', refreshCalls := [''R1''],
              rotated := [''R1'']\<rparr>)))"
  let ?es = "[Execute 1, Respond 1 (Fail (Status 401)), ReadDone 1 True,
       RenewalDone 1 (Ok (Json (Some ''A2'') (Some ''R2'') (Some ''bearer''))),
       PersistDone 1 True, Execute 2, Respond 2 (Fail (Status 401))]"
  have 1: "run ?es (boot (Some ''R1'')) = Some ?S"
    by (simp add: pipeline_defs storage_defs boot_def Let_def fun_upd_twist)
  have 2: "distinct (issued (Some ''R1'') ?es)"
    by (simp add: issued_def)
  have 3: "secureStore ?S = Some ''R2''" by (simp add: boot_def)
  have 4: "\<exists>s'. step (ReadDone 2 True) ?S = Some s' \<and> refreshCalls s' = [''R1'', ''R2'']"
    by (simp add: onRefreshTokenRead_def tasks_upd storage_defs boot_def)
  have 5: "''R2'' \<notin> set (rotated ?S)"
    by (rule rotated_credential_not_resubmitted [OF 1 2, THEN conjunct1, rule_format, OF 3])
  from 1 2 3 4 5 show ?thesis by (intro conjI)
qed

subsection \<open>Rotation on a successful renewal\<close>

lemma run_append:
  "run (es @ es') s = (case run es s of None \<Rightarrow> None | Some s1 \<Rightarrow> run es' s1)"
  by (induction es arbitrary: s) (auto split: option.splits)

lemma rotated_step:
  assumes "step e s = Some s'"
  shows "set (rotated s) \<subseteq> set (rotated s')"
proof (cases e)
  case (Execute r)
  with assms show ?thesis by (auto dest!: newRequest_tasks)
next
  case (Respond r out)
  with assms show ?thesis
    by (auto simp: onResponse_def split: option.splits phase.splits outcome.splits if_splits)
next
  case (ReadDone r ok)
  with assms show ?thesis
    by (auto simp: onRefreshTokenRead_def getRefreshToken_def
        split: option.splits phase.splits if_splits)
next
  case (RenewalDone r out)
  with assms show ?thesis
    by (auto simp: onRenewalResponse_def catchRefresh_fields setAccessToken_def
        split: option.splits phase.splits outcome.splits body.splits)
next
  case (PersistDone r ok)
  with assms show ?thesis
    by (auto simp: onRefreshTokenWritten_def catchRefresh_fields commitRenewal_fields
        split: option.splits phase.splits if_splits)
next
  case (ClearDone r ok)
  with assms show ?thesis
    by (auto simp: onRefreshTokenCleared_def clearRefreshToken_def
        split: option.splits phase.splits if_splits)
next
  case (Mount i)
  with assms show ?thesis by (auto simp: mount_def split: option.splits)
next
  case (StartupReadDone i ok r)
  with assms show ?thesis
    by (auto simp: onStartupRead_def split: option.splits opphase.splits if_splits
        dest!: newRequest_tasks)
next
  case (Call i k r)
  with assms show ?thesis
    by (auto simp: callAuth_def clearAccessToken_def split: option.splits opkind.splits
        dest!: newRequest_tasks)
next
  case (Resume i)
  with assms show ?thesis
    by (auto simp: onOpResume_def opThrow_def setAccessToken_def clearAccessToken_def
        split: option.splits opphase.splits phase.splits result.splits body.splits if_splits)
next
  case (Saved i ok)
  with assms show ?thesis
    by (auto simp: onOpSaved_def opThrow_def setRefreshToken_def clearAccessToken_def
        split: option.splits opphase.splits if_splits)
next
  case (Cleared i ok)
  with assms show ?thesis
    by (auto simp: onOpCleared_def clearRefreshToken_def
        split: option.splits opphase.splits if_splits)
qed

lemma rotated_run:
  "run es s = Some s' \<Longrightarrow> set (rotated s) \<subseteq> set (rotated s')"
proof (induction es arbitrary: s)
  case Nil
  then show ?case by simp
next
  case (Cons e es)
  then obtain s1 where 1: "step e s = Some s1" and 2: "run es s1 = Some s'"
    by (auto split: option.splits)
  from rotated_step [OF 1] Cons.IH [OF 2] show ?case by blast
qed

text \<open>
  Claim C7, as stated, has the request issued again with \<open>A2\<close> attached and every later
  read of the renewal credential return \<open>R2\<close>. First execution: a login is under way;
  between the renewal answer \<open>{A2, R2}\<close> and the completion of the write of \<open>R2\<close> its
  answer is handled, which sets the access credential to \<open>A9\<close>; the request interceptor
  attaches the access credential of the moment, so the request leaves with \<open>A9\<close>. Second
  execution: after the rotation a logout deletes the stored credential, and
  \<^verbatim>\<open>getRefreshToken\<close> returns \<^verbatim>\<open>null\<close>.
\<close>

theorem reissue_carries_later_credential:
  "map_option (\<lambda>s. map_option authorization (tasks s 1))
     (run [Call 0 Login 5, Execute 1, Respond 1 (Fail (Status 401)), ReadDone 1 True,
           RenewalDone 1 (Ok (Json (Some ''A2'') (Some ''R2'') (Some ''bearer''))),
           Respond 5 (Ok (Json (Some ''A9'') (Some ''R9'') (Some ''bearer''))),
           Resume 0, PersistDone 1 True] (boot (Some ''R1'')))
     = Some (Some (Some ''Bearer A9''))
   \<and> map_option getAccessToken
     (run [Call 0 Login 5, Execute 1, Respond 1 (Fail (Status 401)), ReadDone 1 True,
           RenewalDone 1 (Ok (Json (Some ''A2'') (Some ''R2'') (Some ''bearer''))),
           Respond 5 (Ok (Json (Some ''A9'') (Some ''R9'') (Some ''bearer''))),
           Resume 0, PersistDone 1 True] (boot (Some ''R1'')))
     = Some (Some ''A9'')
   \<and> map_option (getRefreshToken True)
     (run [Execute 1, Respond 1 (Fail (Status 401)), ReadDone 1 True,
           RenewalDone 1 (Ok (Json (Some ''A2'') (Some ''R2'') (Some ''bearer''))),
           PersistDone 1 True, Call 0 Logout 0, Cleared 0 True] (boot (Some ''R1'')))
     = Some None"
  by (simp add: pipeline_defs session_defs storage_defs boot_def Let_def)

text \<open>
  Claim C7, amended. In every state an execution can reach: an authorization failure on an
  unmarked request makes the handler read the renewal credential; when the read returns the
  stored \<open>R1\<close> while no renewal is running, the request is marked and \<open>R1\<close> is posted
  to the renewal endpoint; when the answer \<open>{A2, R2}\<close> arrives, \<open>A2\<close> becomes the
  access credential and the write of \<open>R2\<close> is awaited; when the write has succeeded, the
  store holds \<open>R2\<close>, the mutex is released, and the request is issued again with
  \<open>A2\<close> attached, or with the access credential that another operation has stored in
  between. From then on, as long as the server issues no renewal credential twice,
  \<^verbatim>\<open>getRefreshToken\<close> never returns \<open>R1\<close> again.
\<close>

theorem renewal_rotates_credential:
  assumes "run es (boot p) = Some s"
  shows
    "(\<forall>r t. tasks s r = Some t \<and> phase t = InFlight \<and> \<not> retry t \<longrightarrow>
        step (Respond r (Fail (Status 401))) s =
          Some (upd r (t\<lparr>phase := ReadingRenewal (RequestFailed (Status 401))\<rparr>) s))
     \<and> (\<forall>r t e R1. tasks s r = Some t \<and> phase t = ReadingRenewal e \<and> \<not> isRefreshing s \<and>
          secureStore s = Some R1 \<and> R1 \<noteq> [] \<longrightarrow>
        step (ReadDone r True) s =
          Some (upd r (t\<lparr>retry := True, phase := Renewing R1\<rparr>)
                  (s\<lparr>isRefreshing := True, refreshCalls := refreshCalls s @ [R1]\<rparr>)))
     \<and> (\<forall>r t R1 a n ty. tasks s r = Some t \<and> phase t = Renewing R1 \<longrightarrow>
        step (RenewalDone r (Ok (Json a n ty))) s =
          Some (upd r (t\<lparr>phase := Persisting R1 a n\<rparr>) (s\<lparr>accessToken := a\<rparr>)))
     \<and> (\<forall>r t R1 a n. tasks s r = Some t \<and> phase t = Persisting R1 a n \<longrightarrow>
        (\<exists>s1. step (PersistDone r True) s = Some s1
           \<and> secureStore s1 = n \<and> accessToken s1 = accessToken s
           \<and> tasks s1 r =
               Some (t\<lparr>authorization :=
                      Some (bearer (if truthy (accessToken s) then accessToken s else a)),
                    phase := InFlight\<rparr>)
           \<and> refreshCalls s1 = refreshCalls s \<and> \<not> isRefreshing s1
           \<and> (\<forall>es' s2 ok. run es' s1 = Some s2 \<and>
                  distinct (issued p (es @ PersistDone r True # es')) \<longrightarrow>
                  getRefreshToken ok s2 \<noteq> Some R1)))"
proof (intro conjI allI impI)
  fix r t
  assume "tasks s r = Some t \<and> phase t = InFlight \<and> \<not> retry t"
  then show "step (Respond r (Fail (Status 401))) s =
          Some (upd r (t\<lparr>phase := ReadingRenewal (RequestFailed (Status 401))\<rparr>) s)"
    by (simp add: onResponse_def)
next
  fix r t e R1
  assume "tasks s r = Some t \<and> phase t = ReadingRenewal e \<and> \<not> isRefreshing s \<and>
          secureStore s = Some R1 \<and> R1 \<noteq> []"
  then show "step (ReadDone r True) s =
          Some (upd r (t\<lparr>retry := True, phase := Renewing R1\<rparr>)
                  (s\<lparr>isRefreshing := True, refreshCalls := refreshCalls s @ [R1]\<rparr>))"
    by (simp add: onRefreshTokenRead_def getRefreshToken_def)
next
  fix r t R1 a n ty
  assume "tasks s r = Some t \<and> phase t = Renewing R1"
  then show "step (RenewalDone r (Ok (Json a n ty))) s =
          Some (upd r (t\<lparr>phase := Persisting R1 a n\<rparr>) (s\<lparr>accessToken := a\<rparr>))"
    by (simp add: onRenewalResponse_def setAccessToken_def)
next
  fix r t R1 a n
  assume h: "tasks s r = Some t \<and> phase t = Persisting R1 a n"
  let ?s1 = "commitRenewal r t R1 a n s"
  have st: "step (PersistDone r True) s = Some ?s1"
    using h by (simp add: onRefreshTokenWritten_def)
  have later: "getRefreshToken ok s2 \<noteq> Some R1"
    if "run es' ?s1 = Some s2 \<and> distinct (issued p (es @ PersistDone r True # es'))"
    for es' s2 ok
  proof -
    have "run ((es @ [PersistDone r True]) @ es') (boot p) = Some s2"
      using assms st that unfolding run_append [of "es @ [PersistDone r True]"] run_snoc
      by simp
    then have "run (es @ PersistDone r True # es') (boot p) = Some s2" by simp
    from reachable_tokInv [OF this] that
    have inv: "tokInv (set (issued p (es @ PersistDone r True # es'))) s2" by simp
    have "R1 \<in> set (rotated ?s1)" by (simp add: commitRenewal_fields)
    with rotated_run [of es' ?s1 s2] that have "R1 \<in> set (rotated s2)" by blast
    with tokInv_store [OF inv] have "secureStore s2 \<noteq> Some R1" by blast
    then show ?thesis by (simp add: getRefreshToken_def)
  qed
  show "\<exists>s1. step (PersistDone r True) s = Some s1
           \<and> secureStore s1 = n \<and> accessToken s1 = accessToken s
           \<and> tasks s1 r =
               Some (t\<lparr>authorization :=
                      Some (bearer (if truthy (accessToken s) then accessToken s else a)),
                    phase := InFlight\<rparr>)
           \<and> refreshCalls s1 = refreshCalls s \<and> \<not> isRefreshing s1
           \<and> (\<forall>es' s2 ok. run es' s1 = Some s2 \<and>
                  distinct (issued p (es @ PersistDone r True # es')) \<longrightarrow>
                  getRefreshToken ok s2 \<noteq> Some R1)"
  proof (intro exI conjI allI impI)
    show "step (PersistDone r True) s = Some ?s1" by (rule st)
  qed (simp_all add: commitRenewal_fields commitRenewal_tasks later del: step.simps)
qed

theorem renewal_rotates_credential_witness:
  "run [Execute 1, Respond 1 (Fail (Status 401)), ReadDone 1 True,
        RenewalDone 1 (Ok (Json (Some ''A2'') (Some ''R2'') (Some ''bearer'')))]
     (boot (Some ''R1'')) =
   Some (upd 1 \<lparr>target = DataEp, authorization = None, retry = True,
                 phase = Persisting ''R1'' (Some ''A2'') (Some ''R2'')\<rparr>
           ((boot (Some ''R1''))\<lparr>isRefreshing := True, accessToken := Some ''A2'',
              refreshCalls := [''R1'']\<rparr>))
   \<and> (\<exists>s1. step (PersistDone 1 True)
          (upd 1 \<lparr>target = DataEp, authorization = None, retry = True,
                 phase = Persisting ''R1'' (Some ''A2'') (Some ''R2'')\<rparr>
           ((boot (Some ''R1''))\<lparr>isRefreshing := True, accessToken := Some ''A2'',
              refreshCalls := [''R1'']\<rparr>)) = Some s1
        \<and> secureStore s1 = Some ''R2'' \<and> accessToken s1 = Some ''A2''
        \<and> tasks s1 1 = Some \<lparr>target = DataEp, authorization = Some ''Bearer A2'',
                              retry = True, phase = InFlight\<rparr>
        \<and> refreshCalls s1 = [''R1''] \<and> \<not> isRefreshing s1
        \<and> (\<exists>s2. run [Execute 2, Respond 2 (Fail (Status 401)), ReadDone 2 True] s1 = Some s2
              \<and> getRefreshToken True s2 \<noteq> Some ''R1''))"
proof -
  let ?t = "\<lparr>target = DataEp, authorization = None, retry = True,
                 phase = Persisting ''R1'' (Some ''A2'') (Some ''R2'')\<rparr>"
  let ?S = "upd 1 ?t
           ((boot (Some ''R1''))\<lparr>isRefreshing := True, accessToken := Some ''A2'',
              refreshCalls := [''R1'']\<rparr>)"
  let ?es = "[Execute 1, Respond 1 (Fail (Status 401)), ReadDone 1 True,
        RenewalDone 1 (Ok (Json (Some ''A2'') (Some ''R2'') (Some ''bearer'')))]"
  let ?es' = "[Execute 2, Respond 2 (Fail (Status 401)), ReadDone 2 True]"
  have 1: "run ?es (boot (Some ''R1'')) = Some ?S"
    by (simp add: pipeline_defs storage_defs boot_def Let_def)
  have 2: "tasks ?S 1 = Some ?t \<and> phase ?t = Persisting ''R1'' (Some ''A2'') (Some ''R2'')"
    by (simp add: tasks_upd)
  from renewal_rotates_credential [OF 1, THEN conjunct2, THEN conjunct2, THEN conjunct2,
    rule_format, OF 2]
  obtain s1 where st: "step (PersistDone 1 True) ?S = Some s1"
    and fields: "secureStore s1 = Some ''R2''" "accessToken s1 = accessToken ?S"
      "tasks s1 1 = Some (?t\<lparr>authorization :=
          Some (bearer (if truthy (accessToken ?S) then accessToken ?S else Some ''A2'')),
          phase := InFlight\<rparr>)"
      "refreshCalls s1 = refreshCalls ?S" "\<not> isRefreshing s1"
    and later: "\<And>es' s2 ok. run es' s1 = Some s2 \<and>
        distinct (issued (Some ''R1'') (?es @ PersistDone 1 True # es')) \<Longrightarrow>
        getRefreshToken ok s2 \<noteq> Some ''R1''"
    by blast
  from st have s1: "s1 = commitRenewal 1 ?t ''R1'' (Some ''A2'') (Some ''R2'') ?S"
    by (simp add: onRefreshTokenWritten_def tasks_upd)
  have "\<exists>s2. run ?es' s1 = Some s2"
    unfolding s1 by (simp add: pipeline_defs storage_defs boot_def Let_def)
  then obtain s2 where 3: "run ?es' s1 = Some s2" by blast
  have 4: "distinct (issued (Some ''R1'') (?es @ PersistDone 1 True # ?es'))"
    by (simp add: issued_def)
  from later [of ?es' s2 True] 3 4 have 5: "getRefreshToken True s2 \<noteq> Some ''R1''" by blast
  have 6: "accessToken ?S = Some ''A2''" "refreshCalls ?S = [''R1'']"
    by (simp_all add: boot_def)
  show ?thesis
  proof (intro conjI exI)
    show "run ?es (boot (Some ''R1'')) = Some ?S" by (rule 1)
    show "step (PersistDone 1 True) ?S = Some s1" by (rule st)
    show "run ?es' s1 = Some s2" by (rule 3)
    show "getRefreshToken True s2 \<noteq> Some ''R1''" by (rule 5)
  qed (insert fields 6, simp_all add: truthy_def bearer_def)
qed

subsection \<open>The session flag\<close>

text \<open>Which turns can make an absent credential present, and which leave
  \<^verbatim>\<open>isAuthenticated\<close> alone.\<close>

lemma accessToken_step:
  assumes "step e s = Some u" and "accessToken s = None" and "accessToken u \<noteq> None"
  shows "(\<exists>i. e = Resume i) \<or> (\<exists>w b. e = RenewalDone w (Ok b))"
proof (cases e)
  case (Execute r)
  with assms show ?thesis by (auto simp: newRequest_def split: option.splits)
next
  case (Respond r out)
  with assms show ?thesis
    by (auto simp: onResponse_def split: option.splits phase.splits outcome.splits if_splits)
next
  case (ReadDone r ok)
  with assms show ?thesis
    by (auto simp: onRefreshTokenRead_def split: option.splits phase.splits if_splits)
next
  case (RenewalDone r out)
  with assms show ?thesis
    by (cases out)
       (auto simp: onRenewalResponse_def catchRefresh_fields
          split: option.splits phase.splits)
next
  case (PersistDone r ok)
  with assms show ?thesis
    by (auto simp: onRefreshTokenWritten_def catchRefresh_fields commitRenewal_fields
        split: option.splits phase.splits if_splits)
next
  case (ClearDone r ok)
  with assms show ?thesis
    by (auto simp: onRefreshTokenCleared_def clearRefreshToken_def
        split: option.splits phase.splits if_splits)
next
  case (Mount i)
  with assms show ?thesis by (auto simp: mount_def setOp_def split: option.splits)
next
  case (StartupReadDone i ok r)
  with assms show ?thesis
    by (auto simp: onStartupRead_def setOp_def newRequest_def
        split: option.splits opphase.splits if_splits)
next
  case (Call i k r)
  with assms show ?thesis
    by (auto simp: callAuth_def clearAccessToken_def setOp_def newRequest_def
        split: option.splits opkind.splits)
next
  case (Resume i)
  then show ?thesis by simp
next
  case (Saved i ok)
  with assms show ?thesis
    by (auto simp: onOpSaved_def opThrow_def setRefreshToken_def clearAccessToken_def setOp_def
        split: option.splits opphase.splits if_splits)
next
  case (Cleared i ok)
  with assms show ?thesis
    by (auto simp: onOpCleared_def clearRefreshToken_def setOp_def
        split: option.splits opphase.splits if_splits)
qed

lemma secureStore_step:
  assumes "step e s = Some u" and "secureStore s = None" and "secureStore u \<noteq> None"
  shows "(\<exists>w. e = PersistDone w True) \<or> (\<exists>i. e = Saved i True)"
proof (cases e)
  case (Execute r)
  with assms show ?thesis by (auto simp: newRequest_def split: option.splits)
next
  case (Respond r out)
  with assms show ?thesis
    by (auto simp: onResponse_def split: option.splits phase.splits outcome.splits if_splits)
next
  case (ReadDone r ok)
  with assms show ?thesis
    by (auto simp: onRefreshTokenRead_def split: option.splits phase.splits if_splits)
next
  case (RenewalDone r out)
  with assms show ?thesis
    by (auto simp: onRenewalResponse_def catchRefresh_fields setAccessToken_def
        split: option.splits phase.splits outcome.splits body.splits)
next
  case (PersistDone r ok)
  with assms show ?thesis
    by (auto simp: onRefreshTokenWritten_def catchRefresh_fields
        split: option.splits phase.splits if_splits)
next
  case (ClearDone r ok)
  with assms show ?thesis
    by (auto simp: onRefreshTokenCleared_def clearRefreshToken_def
        split: option.splits phase.splits if_splits)
next
  case (Mount i)
  with assms show ?thesis by (auto simp: mount_def setOp_def split: option.splits)
next
  case (StartupReadDone i ok r)
  with assms show ?thesis
    by (auto simp: onStartupRead_def setOp_def newRequest_def
        split: option.splits opphase.splits if_splits)
next
  case (Call i k r)
  with assms show ?thesis
    by (auto simp: callAuth_def clearAccessToken_def setOp_def newRequest_def
        split: option.splits opkind.splits)
next
  case (Resume i)
  with assms show ?thesis
    by (auto simp: onOpResume_def opThrow_def setAccessToken_def clearAccessToken_def setOp_def
        split: option.splits opphase.splits phase.splits result.splits body.splits if_splits)
next
  case (Saved i ok)
  with assms show ?thesis
    by (auto simp: onOpSaved_def opThrow_def clearAccessToken_def setOp_def
        split: option.splits opphase.splits if_splits)
next
  case (Cleared i ok)
  with assms show ?thesis
    by (auto simp: onOpCleared_def clearRefreshToken_def setOp_def
        split: option.splits opphase.splits if_splits)
qed

lemma isAuthenticated_step:
  assumes "pipelineEvent e" and "step e s = Some u"
  shows "isAuthenticated u = isAuthenticated s"
proof (cases e)
  case (Execute r)
  with assms show ?thesis by (auto simp: newRequest_def split: option.splits)
next
  case (Respond r out)
  with assms show ?thesis
    by (auto simp: onResponse_def split: option.splits phase.splits outcome.splits if_splits)
next
  case (ReadDone r ok)
  with assms show ?thesis
    by (auto simp: onRefreshTokenRead_def split: option.splits phase.splits if_splits)
next
  case (RenewalDone r out)
  with assms show ?thesis
    by (auto simp: onRenewalResponse_def catchRefresh_fields setAccessToken_def
        split: option.splits phase.splits outcome.splits body.splits)
next
  case (PersistDone r ok)
  with assms show ?thesis
    by (auto simp: onRefreshTokenWritten_def commitRenewal_fields catchRefresh_fields
        split: option.splits phase.splits if_splits)
next
  case (ClearDone r ok)
  with assms show ?thesis
    by (auto simp: onRefreshTokenCleared_def clearRefreshToken_def
        split: option.splits phase.splits if_splits)
qed (use assms in simp_all)

text \<open>
  Claim C3, as stated, has \<^verbatim>\<open>isAuthenticated\<close> false once a shared renewal has been
  rejected. After a login, three calls fail together, call 1 renews and calls 2 and 3 are
  queued; the renewal is rejected and the credential deleted. All three calls end with the
  renewal error and both credentials are absent, but \<^verbatim>\<open>isAuthenticated\<close>, the React
  state that \<^verbatim>\<open>login\<close> set, is still true.
\<close>

theorem session_flag_survives_rejection:
  "map_option isAuthenticated
     (run [Call 0 Login 10,
           Respond 10 (Ok (Json (Some ''A1'') (Some ''R1'') (Some ''bearer''))),
           Resume 0, Saved 0 True, Execute 1, Execute 2, Execute 3,
           Respond 1 (Fail (Status 401)), Respond 2 (Fail (Status 401)),
           Respond 3 (Fail (Status 401)), ReadDone 1 True, ReadDone 2 True, ReadDone 3 True,
           RenewalDone 1 (Fail (Status 401)), ClearDone 1 True] (boot None)) = Some True
   \<and> map_option getAccessToken
     (run [Call 0 Login 10,
           Respond 10 (Ok (Json (Some ''A1'') (Some ''R1'') (Some ''bearer''))),
           Resume 0, Saved 0 True, Execute 1, Execute 2, Execute 3,
           Respond 1 (Fail (Status 401)), Respond 2 (Fail (Status 401)),
           Respond 3 (Fail (Status 401)), ReadDone 1 True, ReadDone 2 True, ReadDone 3 True,
           RenewalDone 1 (Fail (Status 401)), ClearDone 1 True] (boot None)) = Some None
   \<and> map_option (getRefreshToken True)
     (run [Call 0 Login 10,
           Respond 10 (Ok (Json (Some ''A1'') (Some ''R1'') (Some ''bearer''))),
           Resume 0, Saved 0 True, Execute 1, Execute 2, Execute 3,
           Respond 1 (Fail (Status 401)), Respond 2 (Fail (Status 401)),
           Respond 3 (Fail (Status 401)), ReadDone 1 True, ReadDone 2 True, ReadDone 3 True,
           RenewalDone 1 (Fail (Status 401)), ClearDone 1 True] (boot None)) = Some None
   \<and> map_option (phaseOf 3)
     (run [Call 0 Login 10,
           Respond 10 (Ok (Json (Some ''A1'') (Some ''R1'') (Some ''bearer''))),
           Resume 0, Saved 0 True, Execute 1, Execute 2, Execute 3,
           Respond 1 (Fail (Status 401)), Respond 2 (Fail (Status 401)),
           Respond 3 (Fail (Status 401)), ReadDone 1 True, ReadDone 2 True, ReadDone 3 True,
           RenewalDone 1 (Fail (Status 401)), ClearDone 1 True] (boot None))
     = Some (Some (Settled (Rejected (RenewalFailed (Status 401)))))"
  by (simp add: pipeline_defs session_defs storage_defs boot_def phaseOf_def)

text \<open>
  Claim C3, amended. When a renewal call is rejected, in that turn every call in the queue
  is rejected with the renewal error, the access credential is cleared and the initiating
  call awaits the deletion of the renewal credential. When the deletion returns, the
  initiating call is rejected with the renewal error and, if the deletion succeeded,
  \<^verbatim>\<open>getRefreshToken\<close> reports absent. An absent access credential becomes present
  only in a turn that handles a token answer (of login, register or the startup refresh, or
  of a later renewal), an absent renewal credential only in a turn that completes a write
  of one. No turn of the request pipeline changes \<^verbatim>\<open>isAuthenticated\<close>, the state
  of \<^verbatim>\<open>AuthProvider\<close>.
\<close>

theorem renewal_rejected_session:
  "(tasks s r = Some t \<and> phase t = Renewing tok \<longrightarrow>
     (\<exists>s'. step (RenewalDone r (Fail f)) s = Some s'
       \<and> (\<forall>w tw. w \<in> set (failedQueue s) \<and> w \<noteq> r \<and> tasks s w = Some tw \<longrightarrow>
              phaseOf w s' = Some (Settled (Rejected (RenewalFailed f))))
       \<and> phaseOf r s' = Some (Clearing (RenewalFailed f))
       \<and> getAccessToken s' = None
       \<and> isAuthenticated s' = isAuthenticated s))
   \<and> (tasks s r = Some t \<and> phase t = Clearing x \<longrightarrow>
     (\<exists>s'. step (ClearDone r ok) s = Some s'
       \<and> phaseOf r s' = Some (Settled (Rejected x))
       \<and> getAccessToken s' = getAccessToken s
       \<and> (ok \<longrightarrow> (\<forall>ok'. getRefreshToken ok' s' = None))
       \<and> isAuthenticated s' = isAuthenticated s))
   \<and> (step e s = Some u \<and> getAccessToken s = None \<and> getAccessToken u \<noteq> None \<longrightarrow>
        (\<exists>i. e = Resume i) \<or> (\<exists>w b. e = RenewalDone w (Ok b)))
   \<and> (step e s = Some u \<and> secureStore s = None \<and> secureStore u \<noteq> None \<longrightarrow>
        (\<exists>w. e = PersistDone w True) \<or> (\<exists>i. e = Saved i True))
   \<and> (pipelineEvent e \<and> step e s = Some u \<longrightarrow> isAuthenticated u = isAuthenticated s)"
proof (intro conjI impI)
  assume h: "tasks s r = Some t \<and> phase t = Renewing tok"
  then have "step (RenewalDone r (Fail f)) s = Some (catchRefresh r t (RenewalFailed f) s)"
    by (simp add: renewal_failed_step del: step.simps)
  then show "\<exists>s'. step (RenewalDone r (Fail f)) s = Some s'
       \<and> (\<forall>w tw. w \<in> set (failedQueue s) \<and> w \<noteq> r \<and> tasks s w = Some tw \<longrightarrow>
              phaseOf w s' = Some (Settled (Rejected (RenewalFailed f))))
       \<and> phaseOf r s' = Some (Clearing (RenewalFailed f))
       \<and> getAccessToken s' = None
       \<and> isAuthenticated s' = isAuthenticated s"
    by (auto simp add: catchRefresh_fields catchRefresh_tasks phaseOf_def getAccessToken_def
        simp del: step.simps)
next
  assume h: "tasks s r = Some t \<and> phase t = Clearing x"
  then have "step (ClearDone r ok) s =
           Some ((upd r (t\<lparr>phase := Settled (Rejected x)\<rparr>) (clearRefreshToken ok s))
                   \<lparr>isRefreshing := False\<rparr>)"
    by (simp add: clear_done_step del: step.simps)
  then show "\<exists>s'. step (ClearDone r ok) s = Some s'
       \<and> phaseOf r s' = Some (Settled (Rejected x))
       \<and> getAccessToken s' = getAccessToken s
       \<and> (ok \<longrightarrow> (\<forall>ok'. getRefreshToken ok' s' = None))
       \<and> isAuthenticated s' = isAuthenticated s"
    by (simp add: upd_def clearRefreshToken_def phaseOf_def getAccessToken_def
        getRefreshToken_def del: step.simps)
next
  assume "step e s = Some u \<and> getAccessToken s = None \<and> getAccessToken u \<noteq> None"
  then show "(\<exists>i. e = Resume i) \<or> (\<exists>w b. e = RenewalDone w (Ok b))"
    using accessToken_step [of e s u] by (simp add: getAccessToken_def)
next
  assume "step e s = Some u \<and> secureStore s = None \<and> secureStore u \<noteq> None"
  then show "(\<exists>w. e = PersistDone w True) \<or> (\<exists>i. e = Saved i True)"
    using secureStore_step [of e s u] by simp
next
  assume "pipelineEvent e \<and> step e s = Some u"
  then show "isAuthenticated u = isAuthenticated s"
    using isAuthenticated_step [of e s u] by simp
qed

theorem renewal_rejected_session_witness:
  "(\<exists>s'. step (RenewalDone 1 (Fail (Status 401)))
            (upd 1 \<lparr>target = DataEp, authorization = None, retry = True, phase = Renewing ''R1''\<rparr>
              (upd 2 \<lparr>target = DataEp, authorization = None, retry = False, phase = Queued\<rparr>
                ((boot (Some ''R1''))\<lparr>isRefreshing := True, failedQueue := [2],
                    accessToken := Some ''A1'', isAuthenticated := True\<rparr>))) = Some s'
       \<and> phaseOf 2 s' = Some (Settled (Rejected (RenewalFailed (Status 401))))
       \<and> phaseOf 1 s' = Some (Clearing (RenewalFailed (Status 401)))
       \<and> getAccessToken s' = None
       \<and> isAuthenticated s')
   \<and> (\<exists>s'. step (ClearDone 1 True)
            (upd 1 \<lparr>target = DataEp, authorization = None, retry = True,
                    phase = Clearing (RenewalFailed (Status 401))\<rparr>
              ((boot (Some ''R1''))\<lparr>isRefreshing := True, accessToken := Some ''A9'',
                  isAuthenticated := True\<rparr>)) = Some s'
       \<and> phaseOf 1 s' = Some (Settled (Rejected (RenewalFailed (Status 401))))
       \<and> getAccessToken s' = Some ''A9''
       \<and> getRefreshToken True s' = None
       \<and> isAuthenticated s')
   \<and> isAuthenticated
       (upd 1 \<lparr>target = DataEp, authorization = None, retry = False, phase = InFlight\<rparr>
          ((boot None)\<lparr>isAuthenticated := True\<rparr>))"
  using
    renewal_rejected_session [where
      s = "upd 1 \<lparr>target = DataEp, authorization = None, retry = True, phase = Renewing ''R1''\<rparr>
        (upd 2 \<lparr>target = DataEp, authorization = None, retry = False, phase = Queued\<rparr>
          ((boot (Some ''R1''))\<lparr>isRefreshing := True, failedQueue := [2],
              accessToken := Some ''A1'', isAuthenticated := True\<rparr>))" and r = 1 and
      t = "\<lparr>target = DataEp, authorization = None, retry = True, phase = Renewing ''R1''\<rparr>"
      and tok = "''R1''" and f = "Status 401", THEN conjunct1]
    renewal_rejected_session [where
      s = "upd 1 \<lparr>target = DataEp, authorization = None, retry = True,
                    phase = Clearing (RenewalFailed (Status 401))\<rparr>
              ((boot (Some ''R1''))\<lparr>isRefreshing := True, accessToken := Some ''A9'',
                  isAuthenticated := True\<rparr>)" and r = 1 and
      t = "\<lparr>target = DataEp, authorization = None, retry = True,
            phase = Clearing (RenewalFailed (Status 401))\<rparr>"
      and x = "RenewalFailed (Status 401)" and ok = True,
      THEN conjunct2, THEN conjunct1]
    renewal_rejected_session [where s = "(boot None)\<lparr>isAuthenticated := True\<rparr>"
      and e = "Execute 1" and
      u = "upd 1 \<lparr>target = DataEp, authorization = None, retry = False, phase = InFlight\<rparr>
          ((boot None)\<lparr>isAuthenticated := True\<rparr>)",
      THEN conjunct2, THEN conjunct2, THEN conjunct2, THEN conjunct2]
  by (simp add: pipeline_defs storage_defs boot_def phaseOf_def)

end
